theory Spec2Isabelle
  imports Complex_Main "HOL-Library.Signed_Division"
begin

section \<open>Runtime failures and small helpers\<close>

text \<open>
  Go has no checked exceptions on these paths; what can go wrong is a run-time panic.
  Every function of the model that indexes a slice, follows a pointer, divides integers
  or touches a channel returns \<open>panic + 'a\<close>, with \<open>Inl\<close> the panic.
\<close>

datatype panic =
    IndexOutOfRange
  | NilDereference
  | DivideByZero
  | SendOnClosedChannel
  | CloseOfClosedChannel

definition index :: "'a list \<Rightarrow> nat \<Rightarrow> panic + 'a" where
  "index xs i = (if i < length xs then Inr (xs ! i) else Inl IndexOutOfRange)"

definition deref :: "'a option \<Rightarrow> panic + 'a" where
  "deref p = (case p of None \<Rightarrow> Inl NilDereference | Some v \<Rightarrow> Inr v)"

text \<open>A \<open>for\<close> loop that builds a slice element by element and stops at the first panic.\<close>

fun traverse :: "('a \<Rightarrow> panic + 'b) \<Rightarrow> 'a list \<Rightarrow> panic + 'b list" where
  "traverse f [] = Inr []"
| "traverse f (x # xs) =
     (case f x of
        Inl p \<Rightarrow> Inl p
      | Inr y \<Rightarrow> (case traverse f xs of Inl p \<Rightarrow> Inl p | Inr ys \<Rightarrow> Inr (y # ys)))"

text \<open>The last \<open>n\<close> elements of a list (all of it when it is shorter).\<close>

definition lastn :: "nat \<Rightarrow> 'a list \<Rightarrow> 'a list" where
  "lastn n xs = drop (length xs - n) xs"

section \<open>Data model (package models)\<close>

text \<open>
  \<open>fmt.Sprintf\<close> and \<open>fmt.Errorf\<close> are kept unrendered: a message is the format string
  together with its arguments, so no decimal rendering of a float is invented here.
\<close>

datatype fmt_arg = ArgS string | ArgF real | ArgD int | ArgV message
and message = Sprintf string "fmt_arg list"

text \<open>The values a decoded JSON object can hold under \<open>interface{}\<close>.\<close>

datatype dyn =
    DynString string
  | DynNumber real
  | DynBool bool
  | DynNull
  | DynArray "dyn list"
  | DynObject "(string \<times> dyn) list"

text \<open>
  \<open>time.Time\<close> is an instant counted in nanoseconds (an unbounded integer here: its real
  range is far wider than that of a \<open>Duration\<close>); \<open>float64\<close> quantities are real numbers,
  which is exact for the comparisons of finite values and idealises the rounding of
  the arithmetic in the two statistical checks.
\<close>

record SensorEvent =
  Timestamp :: int
  MachineID :: string
  ConveyorSpeed :: real
  Temperature :: real
  RobotArmAngle :: real
  Status :: string
  EventType :: string
  AdditionalData :: "string \<rightharpoonup> dyn"

text \<open>
  Of an \<open>Alert\<close> the detector sets three fields; the others (ID, EventID, Acknowledged,
  CreatedAt, AcknowledgedAt) keep their zero values and are left out.
\<close>

record Alert =
  AlertType :: string
  Severity :: string
  Message :: message

record AnomalyThresholds =
  ConveyorSpeedMin :: real
  ConveyorSpeedMax :: real
  TemperatureMin :: real
  TemperatureMax :: real
  RobotAngleMin :: real
  RobotAngleMax :: real

section \<open>Durations (package time)\<close>

text \<open>
  A \<open>Duration\<close> is an int64 count of nanoseconds. \<open>Time.Sub\<close> returns \<open>t - u\<close>, and the
  largest (smallest) duration when the difference does not fit. \<open>Duration.Seconds\<close>
  splits the count with Go's truncating \<open>/\<close> and \<open>%\<close>.
\<close>

definition maxDuration :: int where
  "maxDuration = 2 ^ 63 - 1"

definition minDuration :: int where
  "minDuration = - (2 ^ 63)"

definition Second :: int where
  "Second = 1000000000"

definition Sub :: "int \<Rightarrow> int \<Rightarrow> int" where
  "Sub t u =
     (let d = t - u
      in if d > maxDuration then maxDuration
         else if d < minDuration then minDuration
         else d)"

definition Seconds :: "int \<Rightarrow> real" where
  "Seconds d =
     (let sec = d sdiv Second; nsec = d smod Second
      in real_of_int sec + real_of_int nsec / 1000000000)"

section \<open>SlidingWindow\<close>

text \<open>
  The slots of the ring are pointers, \<open>nil\<close> until written: \<open>None\<close> here. Sizes and
  positions are \<open>int\<close> in Go; they are never negative (a negative size makes \<open>make\<close>
  panic inside \<open>NewSlidingWindow\<close>), so they are natural numbers.
\<close>

record SlidingWindow =
  events :: "SensorEvent option list"
  maxSize :: nat
  position :: nat
  full :: bool

definition NewSlidingWindow :: "nat \<Rightarrow> SlidingWindow" where
  "NewSlidingWindow n =
     \<lparr>events = replicate n None, maxSize = n, position = 0, full = False\<rparr>"

definition Add :: "SlidingWindow \<Rightarrow> SensorEvent \<Rightarrow> panic + SlidingWindow" where
  "Add sw event =
     (if \<not> position sw < length (events sw) then Inl IndexOutOfRange
      else if maxSize sw = 0 then Inl DivideByZero
      else
        let evs = (events sw)[position sw := Some event];
            pos = (position sw + 1) mod maxSize sw
        in Inr (sw\<lparr>events := evs, position := pos,
                    full := (if \<not> full sw \<and> pos = 0 then True else full sw)\<rparr>))"

definition GetEvents :: "SlidingWindow \<Rightarrow> panic + SensorEvent option list" where
  "GetEvents sw =
     (if \<not> full sw then
        (if position sw \<le> length (events sw) then Inr (take (position sw) (events sw))
         else Inl IndexOutOfRange)
      else
        traverse (\<lambda>i. index (events sw) ((position sw + i) mod maxSize sw))
          [0 ..< maxSize sw])"

definition GetRecentEvents :: "SlidingWindow \<Rightarrow> nat \<Rightarrow> panic + SensorEvent option list" where
  "GetRecentEvents sw n =
     (case GetEvents sw of
        Inl p \<Rightarrow> Inl p
      | Inr evs \<Rightarrow>
          if n \<ge> length evs then Inr evs
          else Inr (drop (length evs - n) evs))"

text \<open>A run of \<open>Add\<close> calls, oldest first.\<close>

fun AddAll :: "SlidingWindow \<Rightarrow> SensorEvent list \<Rightarrow> panic + SlidingWindow" where
  "AddAll sw [] = Inr sw"
| "AddAll sw (e # es) = (case Add sw e of Inl p \<Rightarrow> Inl p | Inr sw' \<Rightarrow> AddAll sw' es)"

text \<open>
  The shape every window built by \<open>NewSlidingWindow\<close> and \<open>Add\<close> has: a positive size,
  as many slots as the size, the write position inside the ring, and every slot that
  is held written.
\<close>

definition window_ok :: "SlidingWindow \<Rightarrow> bool" where
  "window_ok sw \<longleftrightarrow>
     0 < maxSize sw \<and> length (events sw) = maxSize sw \<and> position sw < maxSize sw \<and>
     list_all (\<lambda>slot. slot \<noteq> None)
       (if full sw then events sw else take (position sw) (events sw))"

text \<open>The events a window holds, oldest first.\<close>

definition held :: "SlidingWindow \<Rightarrow> SensorEvent list" where
  "held sw =
     map the (if full sw then rotate (position sw) (events sw)
              else take (position sw) (events sw))"

section \<open>AnomalyDetector\<close>

text \<open>
  The mutex only serialises the calls and is left out. \<open>alertCallback\<close> says whether
  the callback is set (not \<open>nil\<close>); the alerts handed to it, in call order, are what the
  detect functions return.
\<close>

record AnomalyDetector =
  thresholds :: AnomalyThresholds
  slidingWindow :: "string \<rightharpoonup> SlidingWindow"
  alertCallback :: bool

definition NewAnomalyDetector :: "bool \<Rightarrow> AnomalyDetector" where
  "NewAnomalyDetector cb =
     \<lparr>thresholds =
        \<lparr>ConveyorSpeedMin = 0.1, ConveyorSpeedMax = 3.5,
         TemperatureMin = 15.0, TemperatureMax = 85.0,
         RobotAngleMin = 0.0, RobotAngleMax = 180.0\<rparr>,
      slidingWindow = Map.empty,
      alertCallback = cb\<rparr>"

definition UpdateThresholds :: "AnomalyDetector \<Rightarrow> AnomalyThresholds \<Rightarrow> AnomalyDetector" where
  "UpdateThresholds ad th = ad\<lparr>thresholds := th\<rparr>"

definition GetThresholds :: "AnomalyDetector \<Rightarrow> AnomalyThresholds" where
  "GetThresholds ad = thresholds ad"

text \<open>The two bytes of the degree sign in the UTF-8 format strings.\<close>

definition degree :: string where
  "degree = [CHR 0xC2, CHR 0xB0]"

text \<open>
  \<open>detectThresholdViolations\<close> appends to its local slice \<open>alerts\<close> in four steps, one
  per commented block of the source, and then hands every alert to the callback. Each
  block is a function giving what it appends.
\<close>

definition check_conveyor_speed :: "AnomalyThresholds \<Rightarrow> SensorEvent \<Rightarrow> Alert list" where
  "check_conveyor_speed th event =
     (if ConveyorSpeed event < ConveyorSpeedMin th then
        [\<lparr>AlertType = ''conveyor_speed_low'', Severity = ''high'',
          Message = Sprintf ''Conveyor speed below minimum threshold: %.2f m/s (min: %.2f)''
                      [ArgF (ConveyorSpeed event), ArgF (ConveyorSpeedMin th)]\<rparr>]
      else if ConveyorSpeed event > ConveyorSpeedMax th then
        [\<lparr>AlertType = ''conveyor_speed_high'', Severity = ''high'',
          Message = Sprintf ''Conveyor speed above maximum threshold: %.2f m/s (max: %.2f)''
                      [ArgF (ConveyorSpeed event), ArgF (ConveyorSpeedMax th)]\<rparr>]
      else [])"

definition check_temperature :: "AnomalyThresholds \<Rightarrow> SensorEvent \<Rightarrow> Alert list" where
  "check_temperature th event =
     (if Temperature event < TemperatureMin th then
        [\<lparr>AlertType = ''temperature_low'', Severity = ''medium'',
          Message = Sprintf (''Temperature below minimum threshold: %.1f'' @ degree @ ''C (min: %.1f)'')
                      [ArgF (Temperature event), ArgF (TemperatureMin th)]\<rparr>]
      else if Temperature event > TemperatureMax th then
        [\<lparr>AlertType = ''temperature_high'', Severity = ''high'',
          Message = Sprintf (''Temperature above maximum threshold: %.1f'' @ degree @ ''C (max: %.1f)'')
                      [ArgF (Temperature event), ArgF (TemperatureMax th)]\<rparr>]
      else [])"

definition check_robot_arm_angle :: "AnomalyThresholds \<Rightarrow> SensorEvent \<Rightarrow> Alert list" where
  "check_robot_arm_angle th event =
     (if RobotArmAngle event < RobotAngleMin th \<or> RobotArmAngle event > RobotAngleMax th then
        [\<lparr>AlertType = ''robot_angle_invalid'', Severity = ''medium'',
          Message = Sprintf (''Robot arm angle out of valid range: %.1f'' @ degree @ '' (range: %.1f-%.1f)'')
                      [ArgF (RobotArmAngle event), ArgF (RobotAngleMin th), ArgF (RobotAngleMax th)]\<rparr>]
      else [])"

definition status_alerts :: "SensorEvent \<Rightarrow> Alert list" where
  "status_alerts event =
     (if Status event = ''fault'' then
        (let severity = ''high'';
             message0 = Sprintf ''Machine fault detected: %s'' [ArgS (EventType event)];
             message =
               (case AdditionalData event ''description'' of
                  Some (DynString faultDesc) \<Rightarrow> Sprintf ''Machine fault: %s'' [ArgS faultDesc]
                | _ \<Rightarrow> message0)
         in [\<lparr>AlertType = EventType event, Severity = severity, Message = message\<rparr>])
      else if Status event = ''warning'' then
        [\<lparr>AlertType = EventType event, Severity = ''medium'',
          Message = Sprintf ''Warning condition: %s'' [ArgS (EventType event)]\<rparr>]
      else [])"

definition detectThresholdViolations :: "AnomalyDetector \<Rightarrow> SensorEvent \<Rightarrow> Alert list" where
  "detectThresholdViolations ad event =
     (let alerts = [] @ check_conveyor_speed (thresholds ad) event;
          alerts = alerts @ check_temperature (thresholds ad) event;
          alerts = alerts @ check_robot_arm_angle (thresholds ad) event;
          alerts = alerts @ status_alerts event
      in filter (\<lambda>alert. alertCallback ad) alerts)"

definition detectRapidTemperatureChange :: "SensorEvent option list \<Rightarrow> panic + bool" where
  "detectRapidTemperatureChange evs =
     (if length evs < 5 then Inr False
      else
        (case index evs (length evs - 1) of Inl p \<Rightarrow> Inl p | Inr newest_ptr \<Rightarrow>
        (case deref newest_ptr of Inl p \<Rightarrow> Inl p | Inr newest \<Rightarrow>
        (case index evs (length evs - 5) of Inl p \<Rightarrow> Inl p | Inr oldest_ptr \<Rightarrow>
        (case deref oldest_ptr of Inl p \<Rightarrow> Inl p | Inr oldest \<Rightarrow>
          (let tempChange = Temperature newest - Temperature oldest;
               timeSpan = Seconds (Sub (Timestamp newest) (Timestamp oldest))
           in if timeSpan > 0 then
                (let changeRate = tempChange / timeSpan
                 in Inr (changeRate > 2.0 \<or> changeRate < - 2.0))
              else Inr False))))))"

text \<open>The accumulation loop of \<open>detectSpeedInstability\<close>: \<open>sum\<close> (here \<open>sumSpeeds\<close>) and
  \<open>sumSquares\<close>.\<close>

fun speed_sums :: "SensorEvent option list \<Rightarrow> real \<times> real \<Rightarrow> panic + real \<times> real" where
  "speed_sums [] acc = Inr acc"
| "speed_sums (ptr # rest) (sumSpeeds, sumSquares) =
     (case deref ptr of
        Inl p \<Rightarrow> Inl p
      | Inr event \<Rightarrow>
          speed_sums rest (sumSpeeds + ConveyorSpeed event,
                           sumSquares + ConveyorSpeed event * ConveyorSpeed event))"

definition detectSpeedInstability :: "SensorEvent option list \<Rightarrow> panic + bool" where
  "detectSpeedInstability evs =
     (if length evs < 5 then Inr False
      else
        case speed_sums evs (0, 0) of
          Inl p \<Rightarrow> Inl p
        | Inr (sumSpeeds, sumSquares) \<Rightarrow>
            (let n = real (length evs);
                 mean = sumSpeeds / n;
                 variance = (sumSquares / n) - (mean * mean);
                 stdDev = variance * variance
             in Inr (stdDev > 0.5)))"

text \<open>The three alert literals of the trend and pattern checks.\<close>

definition rapid_temperature_change_alert :: "SensorEvent \<Rightarrow> Alert" where
  "rapid_temperature_change_alert event =
     \<lparr>AlertType = ''rapid_temperature_change'', Severity = ''medium'',
      Message = Sprintf ''Rapid temperature change detected on machine %s''
                  [ArgS (MachineID event)]\<rparr>"

definition speed_instability_alert :: "SensorEvent \<Rightarrow> Alert" where
  "speed_instability_alert event =
     \<lparr>AlertType = ''speed_instability'', Severity = ''medium'',
      Message = Sprintf ''Conveyor speed instability detected on machine %s''
                  [ArgS (MachineID event)]\<rparr>"

definition repeated_faults_alert :: "int \<Rightarrow> Alert" where
  "repeated_faults_alert faultCount =
     \<lparr>AlertType = ''repeated_faults'', Severity = ''high'',
      Message = Sprintf ''Multiple faults detected in recent history (%d faults in last 20 events)''
                  [ArgD faultCount]\<rparr>"

definition detectTrendAnomalies ::
  "AnomalyDetector \<Rightarrow> SensorEvent \<Rightarrow> SlidingWindow \<Rightarrow> panic + Alert list" where
  "detectTrendAnomalies ad event window =
     (case GetRecentEvents window 10 of Inl p \<Rightarrow> Inl p | Inr recentEvents \<Rightarrow>
        (if length recentEvents < 5 then Inr []
         else
          (case detectRapidTemperatureChange recentEvents of Inl p \<Rightarrow> Inl p | Inr rapid \<Rightarrow>
            (let sent1 =
               (if rapid then
                  filter (\<lambda>alert. alertCallback ad) [rapid_temperature_change_alert event]
                else [])
             in (case detectSpeedInstability recentEvents of Inl p \<Rightarrow> Inl p | Inr unstable \<Rightarrow>
               (let sent2 =
                  (if unstable then
                     filter (\<lambda>alert. alertCallback ad) [speed_instability_alert event]
                   else [])
                in Inr (sent1 @ sent2)))))))"

text \<open>The counting loop of \<open>detectPatternAnomalies\<close>.\<close>

fun count_faults :: "SensorEvent option list \<Rightarrow> int \<Rightarrow> panic + int" where
  "count_faults [] faultCount = Inr faultCount"
| "count_faults (ptr # rest) faultCount =
     (case deref ptr of
        Inl p \<Rightarrow> Inl p
      | Inr e \<Rightarrow> count_faults rest (if Status e = ''fault'' then faultCount + 1 else faultCount))"

definition detectPatternAnomalies ::
  "AnomalyDetector \<Rightarrow> SensorEvent \<Rightarrow> SlidingWindow \<Rightarrow> panic + Alert list" where
  "detectPatternAnomalies ad event window =
     (case GetRecentEvents window 20 of Inl p \<Rightarrow> Inl p | Inr recentEvents \<Rightarrow>
        (if length recentEvents < 10 then Inr []
         else
          (case count_faults recentEvents 0 of Inl p \<Rightarrow> Inl p | Inr faultCount \<Rightarrow>
            (if faultCount \<ge> 3 then
              Inr (filter (\<lambda>alert. alertCallback ad) [repeated_faults_alert faultCount])
             else Inr []))))"

definition AnalyzeEvent ::
  "AnomalyDetector \<Rightarrow> SensorEvent \<Rightarrow> panic + AnomalyDetector \<times> Alert list" where
  "AnalyzeEvent ad event =
     (let window0 =
            (case slidingWindow ad (MachineID event) of
               Some w \<Rightarrow> w
             | None \<Rightarrow> NewSlidingWindow 50)
      in (case Add window0 event of Inl p \<Rightarrow> Inl p | Inr window \<Rightarrow>
        (let ad' = ad\<lparr>slidingWindow := (slidingWindow ad)(MachineID event \<mapsto> window)\<rparr>;
             sent1 = detectThresholdViolations ad' event
         in (case detectTrendAnomalies ad' event window of Inl p \<Rightarrow> Inl p | Inr sent2 \<Rightarrow>
            (case detectPatternAnomalies ad' event window of Inl p \<Rightarrow> Inl p | Inr sent3 \<Rightarrow>
              Inr (ad', sent1 @ sent2 @ sent3))))))"

text \<open>The driver loop of \<open>main\<close>: one \<open>AnalyzeEvent\<close> per event read from the consumer.\<close>

fun AnalyzeAll ::
  "AnomalyDetector \<Rightarrow> SensorEvent list \<Rightarrow> panic + AnomalyDetector \<times> Alert list" where
  "AnalyzeAll ad [] = Inr (ad, [])"
| "AnalyzeAll ad (e # es) =
     (case AnalyzeEvent ad e of
        Inl p \<Rightarrow> Inl p
      | Inr (ad', sent) \<Rightarrow>
          (case AnalyzeAll ad' es of
             Inl p \<Rightarrow> Inl p
           | Inr (ad'', sent') \<Rightarrow> Inr (ad'', sent @ sent')))"

text \<open>
  Every window of a detector is one of its own making: well formed and of size 50.
  \<open>history ad m\<close> is what the detector holds of machine \<open>m\<close>, oldest first: the last
  (at most 50) events of \<open>m\<close> it has analysed.
\<close>

definition detector_ok :: "AnomalyDetector \<Rightarrow> bool" where
  "detector_ok ad \<longleftrightarrow>
     (\<forall>m w. slidingWindow ad m = Some w \<longrightarrow> window_ok w \<and> maxSize w = 50)"

definition history :: "AnomalyDetector \<Rightarrow> string \<Rightarrow> SensorEvent list" where
  "history ad m = (case slidingWindow ad m of Some w \<Rightarrow> held w | None \<Rightarrow> [])"

section \<open>Channels\<close>

text \<open>
  A buffered channel: its queue, its capacity, and whether it has been closed.
  \<open>try_send\<close> is \<open>select { case ch <- v: ... default: ... }\<close>: \<open>Some\<close> the channel with
  \<open>v\<close> queued, or \<open>None\<close> when the \<open>default\<close> branch runs. A send on a closed channel
  panics, so does closing a channel twice.
\<close>

record 'a chan =
  buf :: "'a list"
  capacity :: nat
  is_closed :: bool

definition make_chan :: "nat \<Rightarrow> 'a chan" where
  "make_chan n = \<lparr>buf = [], capacity = n, is_closed = False\<rparr>"

definition try_send :: "'a chan \<Rightarrow> 'a \<Rightarrow> panic + 'a chan option" where
  "try_send ch v =
     (if is_closed ch then Inl SendOnClosedChannel
      else if length (buf ch) < capacity ch then Inr (Some (ch\<lparr>buf := buf ch @ [v]\<rparr>))
      else Inr None)"

definition close_chan :: "'a chan \<Rightarrow> panic + 'a chan" where
  "close_chan ch =
     (if is_closed ch then Inl CloseOfClosedChannel else Inr (ch\<lparr>is_closed := True\<rparr>))"

text \<open>A receiver taking the oldest queued value, when there is one.\<close>

definition recv :: "'a chan \<Rightarrow> ('a \<times> 'a chan) option" where
  "recv ch = (case buf ch of [] \<Rightarrow> None | v # rest \<Rightarrow> Some (v, ch\<lparr>buf := rest\<rparr>))"

section \<open>Consumer (package kafka)\<close>

definition validStatuses :: "string \<rightharpoonup> bool" where
  "validStatuses = [''ok'' \<mapsto> True, ''warning'' \<mapsto> True, ''fault'' \<mapsto> True]"

text \<open>\<open>validateEvent\<close> returns an \<open>error\<close>: \<open>None\<close> is \<open>nil\<close>.\<close>

definition validateEvent :: "SensorEvent \<Rightarrow> message option" where
  "validateEvent event =
     (if MachineID event = [] then Some (Sprintf ''machine_id is required'' [])
      else if Status event = [] then Some (Sprintf ''status is required'' [])
      else if EventType event = [] then Some (Sprintf ''event_type is required'' [])
      else if \<not> (case validStatuses (Status event) of Some b \<Rightarrow> b | None \<Rightarrow> False) then
        Some (Sprintf ''invalid status: %s'' [ArgS (Status event)])
      else if ConveyorSpeed event < 0 \<or> ConveyorSpeed event > 10 then
        Some (Sprintf ''conveyor speed out of range: %f'' [ArgF (ConveyorSpeed event)])
      else if Temperature event < - 50 \<or> Temperature event > 200 then
        Some (Sprintf ''temperature out of range: %f'' [ArgF (Temperature event)])
      else if RobotArmAngle event < 0 \<or> RobotArmAngle event > 360 then
        Some (Sprintf ''robot arm angle out of range: %f'' [ArgF (RobotArmAngle event)])
      else None)"

text \<open>
  The consumer's two outgoing channels. \<open>json.Unmarshal\<close> is a parameter of
  \<open>processMessage\<close>: \<open>Inl\<close> its error, \<open>Inr\<close> the decoded event. Log lines are not kept.
\<close>

record Consumer =
  eventChannel :: "SensorEvent chan"
  errorChannel :: "message chan"

definition processMessage ::
  "(string \<Rightarrow> message + SensorEvent) \<Rightarrow> Consumer \<Rightarrow> string \<Rightarrow> panic + Consumer" where
  "processMessage unmarshal c msg =
     (case unmarshal msg of
        Inl err \<Rightarrow>
          (case try_send (errorChannel c) (Sprintf ''failed to unmarshal message: %v'' [ArgV err]) of
             Inl p \<Rightarrow> Inl p
           | Inr (Some ch) \<Rightarrow> Inr (c\<lparr>errorChannel := ch\<rparr>)
           | Inr None \<Rightarrow> Inr c)
      | Inr event \<Rightarrow>
          (case validateEvent event of
             Some err \<Rightarrow>
               (case try_send (errorChannel c) (Sprintf ''invalid event: %v'' [ArgV err]) of
                  Inl p \<Rightarrow> Inl p
                | Inr (Some ch) \<Rightarrow> Inr (c\<lparr>errorChannel := ch\<rparr>)
                | Inr None \<Rightarrow> Inr c)
           | None \<Rightarrow>
               (case try_send (eventChannel c) event of
                  Inl p \<Rightarrow> Inl p
                | Inr (Some ch) \<Rightarrow> Inr (c\<lparr>eventChannel := ch\<rparr>)
                | Inr None \<Rightarrow> Inr c)))"

section \<open>Hub (package websocket)\<close>

text \<open>
  A client is known by its pointer, a number here. The hub's registry is the key set of
  its \<open>clients\<close> map; \<open>send\<close> gives every client's outgoing channel. One pass of the
  \<open>broadcast\<close> case of \<open>Run\<close> visits the registered clients in an order the Go runtime
  picks: the order is the list given to \<open>broadcast_range\<close>.
\<close>

record Hub =
  clients :: "nat set"
  send :: "nat \<Rightarrow> string chan"

definition broadcast_one :: "string \<Rightarrow> Hub \<Rightarrow> nat \<Rightarrow> panic + Hub" where
  "broadcast_one message h client =
     (case try_send (send h client) message of
        Inl p \<Rightarrow> Inl p
      | Inr (Some ch) \<Rightarrow> Inr (h\<lparr>send := (send h)(client := ch)\<rparr>)
      | Inr None \<Rightarrow>
          (case close_chan (send h client) of
             Inl p \<Rightarrow> Inl p
           | Inr ch \<Rightarrow> Inr (h\<lparr>send := (send h)(client := ch), clients := clients h - {client}\<rparr>)))"

fun broadcast_range :: "string \<Rightarrow> nat list \<Rightarrow> Hub \<Rightarrow> panic + Hub" where
  "broadcast_range message [] h = Inr h"
| "broadcast_range message (client # rest) h =
     (case broadcast_one message h client of
        Inl p \<Rightarrow> Inl p
      | Inr h' \<Rightarrow> broadcast_range message rest h')"

text \<open>The \<open>register\<close> case, with the marshalled welcome message, and the \<open>unregister\<close> case.\<close>

definition Run_register :: "string \<Rightarrow> Hub \<Rightarrow> nat \<Rightarrow> panic + Hub" where
  "Run_register welcome h client =
     (let h1 = h\<lparr>clients := insert client (clients h)\<rparr>
      in case try_send (send h1 client) welcome of
           Inl p \<Rightarrow> Inl p
         | Inr (Some ch) \<Rightarrow> Inr (h1\<lparr>send := (send h1)(client := ch)\<rparr>)
         | Inr None \<Rightarrow>
             (case close_chan (send h1 client) of
                Inl p \<Rightarrow> Inl p
              | Inr ch \<Rightarrow> Inr (h1\<lparr>send := (send h1)(client := ch), clients := clients h1 - {client}\<rparr>)))"

definition Run_unregister :: "Hub \<Rightarrow> nat \<Rightarrow> panic + Hub" where
  "Run_unregister h client =
     (if client \<in> clients h then
        (case close_chan (send h client) of
           Inl p \<Rightarrow> Inl p
         | Inr ch \<Rightarrow> Inr (h\<lparr>clients := clients h - {client}, send := (send h)(client := ch)\<rparr>))
      else Inr h)"

text \<open>No registered client's channel is closed: the hub closes a channel only as it
  removes the client.\<close>

definition hub_ok :: "Hub \<Rightarrow> bool" where
  "hub_ok h \<longleftrightarrow> (\<forall>c \<in> clients h. \<not> is_closed (send h c))"

section \<open>The window on a heap of arrays\<close>

text \<open>
  A Go slice is a view of a backing array: the array's address, an offset, a length and
  a capacity. The heap is the list of the arrays allocated so far, an address being a
  position in it. This second model of the window keeps the sharing between the slice
  \<open>GetEvents\<close> returns and the ring it was taken from.
\<close>

record slice =
  arr :: nat
  off :: nat
  len :: nat
  cap :: nat

type_synonym heap = "SensorEvent option list list"

definition make_slice :: "nat \<Rightarrow> heap \<Rightarrow> slice \<times> heap" where
  "make_slice n hp = (\<lparr>arr = length hp, off = 0, len = n, cap = n\<rparr>, hp @ [replicate n None])"

definition slice_get :: "heap \<Rightarrow> slice \<Rightarrow> nat \<Rightarrow> panic + SensorEvent option" where
  "slice_get hp s i =
     (if i < len s then Inr ((hp ! arr s) ! (off s + i)) else Inl IndexOutOfRange)"

definition slice_set :: "heap \<Rightarrow> slice \<Rightarrow> nat \<Rightarrow> SensorEvent option \<Rightarrow> panic + heap" where
  "slice_set hp s i v =
     (if i < len s then Inr (hp[arr s := (hp ! arr s)[off s + i := v]])
      else Inl IndexOutOfRange)"

text \<open>\<open>s[:k]\<close>: allowed up to the capacity.\<close>

definition slice_prefix :: "slice \<Rightarrow> nat \<Rightarrow> panic + slice" where
  "slice_prefix s k = (if k \<le> cap s then Inr (s\<lparr>len := k\<rparr>) else Inl IndexOutOfRange)"

text \<open>What iterating over a slice observes in a given heap.\<close>

definition slice_contents :: "heap \<Rightarrow> slice \<Rightarrow> SensorEvent option list" where
  "slice_contents hp s = take (len s) (drop (off s) (hp ! arr s))"

record SlidingWindow_h =
  events_h :: slice
  maxSize_h :: nat
  position_h :: nat
  full_h :: bool

definition NewSlidingWindow_h :: "nat \<Rightarrow> heap \<Rightarrow> SlidingWindow_h \<times> heap" where
  "NewSlidingWindow_h n hp =
     (let (s, hp') = make_slice n hp
      in (\<lparr>events_h = s, maxSize_h = n, position_h = 0, full_h = False\<rparr>, hp'))"

definition Add_h :: "SlidingWindow_h \<Rightarrow> SensorEvent \<Rightarrow> heap \<Rightarrow> panic + SlidingWindow_h \<times> heap" where
  "Add_h sw event hp =
     (case slice_set hp (events_h sw) (position_h sw) (Some event) of
        Inl p \<Rightarrow> Inl p
      | Inr hp' \<Rightarrow>
          if maxSize_h sw = 0 then Inl DivideByZero
          else
            let pos = (position_h sw + 1) mod maxSize_h sw
            in Inr (sw\<lparr>position_h := pos,
                        full_h := (if \<not> full_h sw \<and> pos = 0 then True else full_h sw)\<rparr>, hp'))"

text \<open>The copying loop of \<open>GetEvents\<close>, from index \<open>i\<close> up to \<open>maxSize\<close>, \<open>k\<close> rounds left.\<close>

fun copy_loop :: "SlidingWindow_h \<Rightarrow> slice \<Rightarrow> nat \<Rightarrow> nat \<Rightarrow> heap \<Rightarrow> panic + heap" where
  "copy_loop sw result i 0 hp = Inr hp"
| "copy_loop sw result i (Suc k) hp =
     (let idx = (position_h sw + i) mod maxSize_h sw
      in case slice_get hp (events_h sw) idx of
           Inl p \<Rightarrow> Inl p
         | Inr v \<Rightarrow>
             (case slice_set hp result i v of
                Inl p \<Rightarrow> Inl p
              | Inr hp' \<Rightarrow> copy_loop sw result (Suc i) k hp'))"

definition GetEvents_h :: "SlidingWindow_h \<Rightarrow> heap \<Rightarrow> panic + slice \<times> heap" where
  "GetEvents_h sw hp =
     (if \<not> full_h sw then
        (case slice_prefix (events_h sw) (position_h sw) of
           Inl p \<Rightarrow> Inl p
         | Inr s \<Rightarrow> Inr (s, hp))
      else
        (let (result, hp1) = make_slice (maxSize_h sw) hp
         in case copy_loop sw result 0 (maxSize_h sw) hp1 of
              Inl p \<Rightarrow> Inl p
            | Inr hp2 \<Rightarrow> Inr (result, hp2)))"

fun AddAll_h :: "SlidingWindow_h \<Rightarrow> SensorEvent list \<Rightarrow> heap \<Rightarrow> panic + SlidingWindow_h \<times> heap" where
  "AddAll_h sw [] hp = Inr (sw, hp)"
| "AddAll_h sw (e # es) hp =
     (case Add_h sw e hp of Inl p \<Rightarrow> Inl p | Inr (sw', hp') \<Rightarrow> AddAll_h sw' es hp')"

section \<open>Sample events\<close>

text \<open>A reading with no additional data.\<close>

definition reading ::
  "string \<Rightarrow> int \<Rightarrow> real \<Rightarrow> real \<Rightarrow> real \<Rightarrow> string \<Rightarrow> string \<Rightarrow> SensorEvent" where
  "reading machine t speed temp angle st ty =
     \<lparr>Timestamp = t, MachineID = machine, ConveyorSpeed = speed, Temperature = temp,
      RobotArmAngle = angle, Status = st, EventType = ty, AdditionalData = Map.empty\<rparr>"

text \<open>A normal reading of machine \<open>m1\<close> taken at instant \<open>t\<close>.\<close>

definition probe :: "int \<Rightarrow> SensorEvent" where
  "probe t = reading ''m1'' t 1.0 50 90 ''ok'' ''normal_operation''"

text \<open>
  A detector with the callback set and the default thresholds whose only window, of
  machine \<open>m\<close>, holds the events \<open>evs\<close> (fewer than 50): the state after analysing them.
\<close>

definition detector_with :: "string \<Rightarrow> SensorEvent list \<Rightarrow> AnomalyDetector" where
  "detector_with m evs =
     (NewAnomalyDetector True)
       \<lparr>slidingWindow :=
          [m \<mapsto> \<lparr>events = map Some evs @ replicate (50 - length evs) None,
                  maxSize = 50, position = length evs, full = False\<rparr>]\<rparr>"

text \<open>A normal reading of machine \<open>m1\<close> at instant \<open>t\<close> with the given temperature.\<close>

definition heat :: "int \<Rightarrow> real \<Rightarrow> SensorEvent" where
  "heat t temp = reading ''m1'' t 1.0 temp 90 ''ok'' ''normal_operation''"

text \<open>A reading of machine \<open>m1\<close> at instant \<open>t\<close> that reports a fault.\<close>

definition faulty :: "int \<Rightarrow> SensorEvent" where
  "faulty t = reading ''m1'' t 1.0 50 90 ''fault'' ''conveyor_jam''"


section \<open>Dispersion\<close>


text \<open>
  A hub with three registered clients and empty mailboxes: client 1 has a mailbox of
  capacity 1, the others of capacity 256.
\<close>

definition three_clients :: Hub where
  "three_clients =
     \<lparr>clients = {1, 2, 3}, send = (\<lambda>c. make_chan 256)(1 := make_chan 1)\<rparr>"

section \<open>Keeping a snapshot\<close>

text \<open>
  The shape of a heap window made by \<open>NewSlidingWindow_h\<close> and \<open>Add_h\<close>: its slice covers
  a whole allocated array of \<open>maxSize\<close> slots, and the write position is inside it.
\<close>

definition window_h_ok :: "heap \<Rightarrow> SlidingWindow_h \<Rightarrow> bool" where
  "window_h_ok hp sw \<longleftrightarrow>
     arr (events_h sw) < length hp \<and> off (events_h sw) = 0 \<and>
     len (events_h sw) = maxSize_h sw \<and> cap (events_h sw) = maxSize_h sw \<and>
     length (hp ! arr (events_h sw)) = maxSize_h sw \<and>
     0 < maxSize_h sw \<and> position_h sw < maxSize_h sw"

text \<open>
  A caller that adds the events \<open>before\<close> to a new window of size \<open>n\<close>, takes a snapshot
  with \<open>GetEvents\<close>, keeps it, and adds the events \<open>after\<close>: what iterating the snapshot
  gives when it is taken, and what it gives afterwards.
\<close>

definition snapshot_then_add ::
  "nat \<Rightarrow> SensorEvent list \<Rightarrow> SensorEvent list \<Rightarrow>
   panic + SensorEvent option list \<times> SensorEvent option list" where
  "snapshot_then_add n before after =
     (let (w0, hp0) = NewSlidingWindow_h n []
      in (case AddAll_h w0 before hp0 of Inl p \<Rightarrow> Inl p | Inr (w1, hp1) \<Rightarrow>
         (case GetEvents_h w1 hp1 of Inl p \<Rightarrow> Inl p | Inr (snap, hp2) \<Rightarrow>
         (case AddAll_h w1 after hp2 of Inl p \<Rightarrow> Inl p | Inr (w2, hp3) \<Rightarrow>
            Inr (slice_contents hp2 snap, slice_contents hp3 snap)))))"

text \<open>The window a heap window stands for: its ring read out of the heap.\<close>

definition abs_window :: "heap \<Rightarrow> SlidingWindow_h \<Rightarrow> SlidingWindow" where
  "abs_window hp sw =
     \<lparr>events = slice_contents hp (events_h sw), maxSize = maxSize_h sw,
      position = position_h sw, full = full_h sw\<rparr>"

section \<open>Lemmas on the window\<close>

lemma traverse_index_ok:
  "(\<And>i. i \<in> set is \<Longrightarrow> g i < length xs) \<Longrightarrow>
   traverse (\<lambda>i. index xs (g i)) is = Inr (map (\<lambda>i. xs ! g i) is)"
  by (induction "is") (simp_all add: index_def)

lemma map_Some_the:
  "list_all (\<lambda>slot. slot \<noteq> None) xs \<Longrightarrow> map Some (map the xs) = xs"
  by (induction xs) auto

lemma GetEvents_ok:
  assumes "window_ok sw"
  shows "GetEvents sw = Inr (map Some (held sw))"
proof (cases "full sw")
  case False
  with assms have "list_all (\<lambda>slot. slot \<noteq> None) (take (position sw) (events sw))"
    and "position sw \<le> length (events sw)"
    by (simp_all add: window_ok_def)
  then have "map Some (map the (take (position sw) (events sw))) = take (position sw) (events sw)"
    by (simp only: map_Some_the)
  with False \<open>position sw \<le> length (events sw)\<close> show ?thesis
    by (simp add: GetEvents_def held_def)
next
  case True
  let ?c = "maxSize sw" and ?p = "position sw" and ?ev = "events sw"
  from assms True have len: "length ?ev = ?c" and pos: "0 < ?c"
    and allS: "list_all (\<lambda>slot. slot \<noteq> None) ?ev"
    by (simp_all add: window_ok_def)
  have "traverse (\<lambda>i. index ?ev ((?p + i) mod ?c)) [0 ..< ?c]
        = Inr (map (\<lambda>i. ?ev ! ((?p + i) mod ?c)) [0 ..< ?c])"
    by (rule traverse_index_ok) (simp add: len pos)
  moreover have "map (\<lambda>i. ?ev ! ((?p + i) mod ?c)) [0 ..< ?c] = rotate ?p ?ev"
    by (rule nth_equalityI) (simp_all add: len nth_rotate)
  moreover have "map Some (map the (rotate ?p ?ev)) = rotate ?p ?ev"
    using allS by (intro map_Some_the) (simp add: list_all_iff)
  ultimately show ?thesis
    using True by (simp add: GetEvents_def held_def)
qed

lemma length_held:
  "window_ok sw \<Longrightarrow> length (held sw) = (if full sw then maxSize sw else position sw)"
  by (simp add: held_def window_ok_def)

lemma Add_defined:
  assumes "window_ok sw"
  shows "Add sw e = Inr (sw\<lparr>events := (events sw)[position sw := Some e],
            position := (position sw + 1) mod maxSize sw,
            full := (full sw \<or> (position sw + 1) mod maxSize sw = 0)\<rparr>)"
  using assms by (auto simp: Add_def window_ok_def Let_def)

lemma Add_window_ok:
  assumes "window_ok sw" and "Add sw e = Inr sw'"
  shows "window_ok sw'"
proof -
  let ?c = "maxSize sw" and ?p = "position sw" and ?ev = "events sw"
  from assms(1) have c: "0 < ?c" and len: "length ?ev = ?c" and p: "?p < ?c"
    by (simp_all add: window_ok_def)
  have sw': "sw' = sw\<lparr>events := ?ev[?p := Some e], position := (?p + 1) mod ?c,
            full := (full sw \<or> (?p + 1) mod ?c = 0)\<rparr>"
    using Add_defined [OF assms(1), of e] assms(2) by simp
  show ?thesis
  proof (cases "full sw")
    case True
    with assms(1) have "list_all (\<lambda>slot. slot \<noteq> None) ?ev" by (simp add: window_ok_def)
    then have "list_all (\<lambda>slot. slot \<noteq> None) (?ev[?p := Some e])"
      by (auto simp: list_all_iff dest!: set_update_subset_insert [THEN subsetD])
    with True c len show ?thesis by (simp add: sw' window_ok_def)
  next
    case False
    with assms(1) have h: "list_all (\<lambda>slot. slot \<noteq> None) (take ?p ?ev)" by (simp add: window_ok_def)
    have tk: "take (Suc ?p) (?ev[?p := Some e]) = take ?p ?ev @ [Some e]"
      using p len by (simp add: take_Suc_conv_app_nth)
    show ?thesis
    proof (cases "Suc ?p = ?c")
      case True
      then have "(?p + 1) mod ?c = 0" by simp
      moreover have "?ev[?p := Some e] = take ?p ?ev @ [Some e]"
        using tk True len by (metis length_list_update order_refl take_all)
      then have "list_all (\<lambda>slot. slot \<noteq> None) (?ev[?p := Some e])"
        using h by simp
      ultimately show ?thesis using c len by (simp add: sw' window_ok_def)
    next
      case F: False
      with p have "(?p + 1) mod ?c = Suc ?p" by simp
      then show ?thesis using h c len False F p tk by (simp add: sw' window_ok_def)
    qed
  qed
qed

lemma Add_held:
  assumes "window_ok sw" and "Add sw e = Inr sw'"
  shows "held sw' = lastn (maxSize sw) (held sw @ [e])"
proof -
  let ?c = "maxSize sw" and ?p = "position sw" and ?ev = "events sw"
  from assms(1) have c: "0 < ?c" and len: "length ?ev = ?c" and p: "?p < ?c"
    by (simp_all add: window_ok_def)
  have sw': "sw' = sw\<lparr>events := ?ev[?p := Some e], position := (?p + 1) mod ?c,
            full := (full sw \<or> (?p + 1) mod ?c = 0)\<rparr>"
    using Add_defined [OF assms(1), of e] assms(2) by simp
  have upd: "?ev[?p := Some e] = take ?p ?ev @ Some e # drop (Suc ?p) ?ev"
    using p len by (simp add: upd_conv_take_nth_drop)
  show ?thesis
  proof (cases "full sw")
    case True
    have hl: "held sw = map the (drop ?p ?ev @ take ?p ?ev)"
      using True p len by (simp add: held_def rotate_drop_take)
    have lhs: "lastn ?c (held sw @ [e]) = map the (drop (Suc ?p) ?ev @ take ?p ?ev) @ [e]"
      using p len by (simp add: hl lastn_def drop_map [symmetric] del: drop_map) 
    show ?thesis
    proof (cases "Suc ?p = ?c")
      case T: True
      then have m: "(?p + 1) mod ?c = 0" by simp
      have "drop (Suc ?p) ?ev = []" using T len by simp
      then have "held sw' = map the (take ?p ?ev) @ [e]"
        using True m by (simp add: sw' held_def upd)
      moreover have "lastn ?c (held sw @ [e]) = map the (take ?p ?ev) @ [e]"
        using \<open>drop (Suc ?p) ?ev = []\<close> by (simp add: lhs)
      ultimately show ?thesis by simp
    next
      case F: False
      with p have m: "(?p + 1) mod ?c = Suc ?p" by simp
      from F p have lt: "Suc ?p < ?c" by simp
      have "rotate (Suc ?p) (take ?p ?ev @ Some e # drop (Suc ?p) ?ev)
            = drop (Suc ?p) ?ev @ take ?p ?ev @ [Some e]"
        using lt len by (simp add: rotate_drop_take min_absorb2)
      then have "held sw' = map the (drop (Suc ?p) ?ev @ take ?p ?ev) @ [e]"
        using True m by (simp add: sw' held_def upd)
      with lhs show ?thesis by simp
    qed
  next
    case False
    have hl: "held sw = map the (take ?p ?ev)" using False by (simp add: held_def)
    have lhs: "lastn ?c (held sw @ [e]) = map the (take ?p ?ev) @ [e]"
      using p len by (simp add: hl lastn_def)
    have tk: "take (Suc ?p) (?ev[?p := Some e]) = take ?p ?ev @ [Some e]"
      using p len by (simp add: take_Suc_conv_app_nth)
    show ?thesis
    proof (cases "Suc ?p = ?c")
      case T: True
      then have m: "(?p + 1) mod ?c = 0" by simp
      have "?ev[?p := Some e] = take ?p ?ev @ [Some e]"
        using tk T len by (metis length_list_update order_refl take_all)
      then have "held sw' = map the (take ?p ?ev) @ [e]"
        using False m by (simp add: sw' held_def)
      with lhs show ?thesis by simp
    next
      case F: False
      with p have m: "(?p + 1) mod ?c = Suc ?p" by simp
      then have "held sw' = map the (take ?p ?ev) @ [e]"
        using False F tk by (simp add: sw' held_def)
      with lhs show ?thesis by simp
    qed
  qed
qed

lemma Add_maxSize:
  "window_ok sw \<Longrightarrow> Add sw e = Inr sw' \<Longrightarrow> maxSize sw' = maxSize sw"
  using Add_defined [of sw e] by auto

lemma lastn_lastn_append:
  "lastn c (lastn c xs @ ys) = lastn c (xs @ ys)"
proof (cases "length xs \<le> c")
  case True
  then show ?thesis by (simp add: lastn_def)
next
  case False
  then have "length xs + length ys - (length xs - c + c) + (length xs - c)
             = length xs + length ys - c"
    by simp
  with False show ?thesis by (simp add: lastn_def)
qed

lemma NewSlidingWindow_maxSize:
  "maxSize (NewSlidingWindow c) = c"
  by (simp add: NewSlidingWindow_def)

lemma NewSlidingWindow_ok:
  "0 < c \<Longrightarrow> window_ok (NewSlidingWindow c)"
  by (simp add: window_ok_def NewSlidingWindow_def)

lemma NewSlidingWindow_held:
  "held (NewSlidingWindow c) = []"
  by (simp add: held_def NewSlidingWindow_def)

lemma AddAll_ok:
  "window_ok sw \<Longrightarrow>
   \<exists>sw'. AddAll sw es = Inr sw' \<and> window_ok sw' \<and> maxSize sw' = maxSize sw \<and>
         held sw' = lastn (maxSize sw) (held sw @ es)"
proof (induction es arbitrary: sw)
  case Nil
  then show ?case by (simp add: lastn_def length_held window_ok_def)
next
  case (Cons e es)
  from Cons.prems obtain sw1 where a: "Add sw e = Inr sw1"
    using Add_defined by blast
  note ok1 = Add_window_ok [OF Cons.prems a]
    and h1 = Add_held [OF Cons.prems a]
    and m1 = Add_maxSize [OF Cons.prems a]
  from Cons.IH [OF ok1] obtain sw' where
    "AddAll sw1 es = Inr sw'" "window_ok sw'" "maxSize sw' = maxSize sw1"
    "held sw' = lastn (maxSize sw1) (held sw1 @ es)"
    by blast
  then show ?case
    using a by (simp add: h1 m1 lastn_lastn_append)
qed

text \<open>
  C2. After any run of \<open>Add\<close> calls on a new window of capacity \<open>c\<close>, \<open>GetEvents\<close>
  returns the last \<open>min n c\<close> of the \<open>n\<close> added events, oldest first, and the window
  never stores or holds more than \<open>c\<close> events; no call panics.
\<close>

theorem snapshot_after_adds:
  assumes "0 < c"
  shows "\<exists>sw. AddAll (NewSlidingWindow c) es = Inr sw \<and>
           GetEvents sw = Inr (map Some (drop (length es - c) es)) \<and>
           length (drop (length es - c) es) = min (length es) c \<and>
           length (events sw) = c \<and> length (held sw) \<le> c"
proof -
  from AddAll_ok [OF NewSlidingWindow_ok [OF assms], of es]
  obtain sw where sw: "AddAll (NewSlidingWindow c) es = Inr sw" "window_ok sw"
    "maxSize sw = c" "held sw = lastn c es"
    by (auto simp: NewSlidingWindow_held NewSlidingWindow_maxSize)
  have "GetEvents sw = Inr (map Some (drop (length es - c) es))"
    using GetEvents_ok [OF sw(2)] by (simp add: sw(4) lastn_def)
  moreover have "length (events sw) = c"
    using sw(2,3) by (simp add: window_ok_def)
  moreover have "length (held sw) \<le> c"
    by (simp add: sw(4) lastn_def)
  ultimately show ?thesis using sw(1) by auto
qed

theorem snapshot_after_adds_witness:
  "0 < (2::nat) \<and>
   (\<exists>sw. AddAll (NewSlidingWindow 2) [probe 1, probe 2, probe 3] = Inr sw \<and>
         GetEvents sw = Inr [Some (probe 2), Some (probe 3)] \<and>
         length (events sw) = 2)"
  using snapshot_after_adds [of 2 "[probe 1, probe 2, probe 3]"]
  by (simp del: AddAll.simps) blast

section \<open>Lemmas on durations, tails and the detector\<close>

lemma Seconds_eq: "Seconds d = real_of_int d / 1000000000"
proof -
  have "d sdiv Second * Second + d smod Second = d"
    by (rule sdiv_mult_smod_eq)
  then have "real_of_int (d sdiv Second) * 1000000000 + real_of_int (d smod Second) = real_of_int d"
    by (metis Second_def of_int_add of_int_mult of_int_numeral)
  then show ?thesis
    by (simp add: Seconds_def Let_def field_simps)
qed

lemma lastn_length_le: "length xs \<le> n \<Longrightarrow> lastn n xs = xs"
  by (simp add: lastn_def)

lemma length_lastn: "length (lastn n xs) = min n (length xs)"
  by (simp add: lastn_def)

lemma lastn_lastn:
  assumes "n \<le> c"
  shows "lastn n (lastn c xs) = lastn n xs"
proof -
  from assms have "length xs - (length xs - c + n) + (length xs - c) = length xs - n"
    by arith
  then show ?thesis by (simp add: lastn_def)
qed

lemma GetRecentEvents_ok:
  assumes "window_ok sw"
  shows "GetRecentEvents sw n = Inr (map Some (lastn n (held sw)))"
  by (simp add: GetRecentEvents_def GetEvents_ok [OF assms] lastn_def drop_map)

lemma rapid_on_events:
  assumes "5 \<le> length evs"
  shows "detectRapidTemperatureChange (map Some evs) =
         Inr (let newest = evs ! (length evs - 1); oldest = evs ! (length evs - 5);
                  timeSpan = Seconds (Sub (Timestamp newest) (Timestamp oldest));
                  changeRate = (Temperature newest - Temperature oldest) / timeSpan
              in timeSpan > 0 \<and> (changeRate > 2 \<or> changeRate < - 2))"
proof -
  from assms have "length evs - 5 < length evs" "length evs - Suc 0 < length evs"
    by arith+
  with assms show ?thesis
    by (simp add: detectRapidTemperatureChange_def index_def deref_def Let_def)
qed

lemma speed_sums_on_events:
  "speed_sums (map Some evs) (a, b) =
     Inr (a + sum_list (map ConveyorSpeed evs),
          b + sum_list (map (\<lambda>e. ConveyorSpeed e * ConveyorSpeed e) evs))"
  by (induction evs arbitrary: a b) (simp_all add: deref_def algebra_simps)

lemma count_faults_on_events:
  "count_faults (map Some evs) k =
     Inr (k + int (length (filter (\<lambda>e. Status e = ''fault'') evs)))"
  by (induction evs arbitrary: k) (simp_all add: deref_def)

lemma detectThresholdViolations_window:
  "detectThresholdViolations (ad\<lparr>slidingWindow := ws\<rparr>) e = detectThresholdViolations ad e"
  by (simp add: detectThresholdViolations_def)

lemma rapid_total:
  "\<exists>b. detectRapidTemperatureChange (map Some evs) = Inr b"
proof (cases "5 \<le> length evs")
  case True
  then show ?thesis by (simp add: rapid_on_events)
next
  case False
  then show ?thesis by (auto simp: detectRapidTemperatureChange_def)
qed

lemma instability_total:
  "\<exists>b. detectSpeedInstability (map Some evs) = Inr b"
  by (auto simp: detectSpeedInstability_def speed_sums_on_events Let_def)

lemma window0_ok:
  fixes m :: string
  assumes "detector_ok ad"
  defines "w0 \<equiv> (case slidingWindow ad m of Some w \<Rightarrow> w | None \<Rightarrow> NewSlidingWindow 50)"
  shows "window_ok w0" and "maxSize w0 = 50" and "held w0 = history ad m"
  using assms
  by (auto simp: detector_ok_def history_def NewSlidingWindow_ok NewSlidingWindow_maxSize
      NewSlidingWindow_held split: option.splits)

text \<open>What the trend and the pattern check send, given the events of the tail.\<close>

lemma detectTrendAnomalies_ok:
  assumes "window_ok w"
  shows "\<exists>rapid unstable.
     detectRapidTemperatureChange (map Some (lastn 10 (held w))) = Inr rapid \<and>
     detectSpeedInstability (map Some (lastn 10 (held w))) = Inr unstable \<and>
     detectTrendAnomalies ad e w =
       Inr (if length (lastn 10 (held w)) < 5 then []
            else (if rapid then filter (\<lambda>a. alertCallback ad) [rapid_temperature_change_alert e]
                  else []) @
                 (if unstable then filter (\<lambda>a. alertCallback ad) [speed_instability_alert e]
                  else []))"
proof -
  obtain rapid where r: "detectRapidTemperatureChange (map Some (lastn 10 (held w))) = Inr rapid"
    using rapid_total by blast
  obtain unstable where u: "detectSpeedInstability (map Some (lastn 10 (held w))) = Inr unstable"
    using instability_total by blast
  have "detectTrendAnomalies ad e w =
       Inr (if length (lastn 10 (held w)) < 5 then []
            else (if rapid then filter (\<lambda>a. alertCallback ad) [rapid_temperature_change_alert e]
                  else []) @
                 (if unstable then filter (\<lambda>a. alertCallback ad) [speed_instability_alert e]
                  else []))"
    by (simp add: detectTrendAnomalies_def GetRecentEvents_ok [OF assms] r u Let_def)
  with r u show ?thesis by blast
qed

lemma detectPatternAnomalies_ok:
  assumes "window_ok w"
  shows "detectPatternAnomalies ad e w =
       Inr (if length (lastn 20 (held w)) < 10 then []
            else if 3 \<le> length (filter (\<lambda>x. Status x = ''fault'') (lastn 20 (held w))) then
              filter (\<lambda>a. alertCallback ad)
                [repeated_faults_alert
                   (int (length (filter (\<lambda>x. Status x = ''fault'') (lastn 20 (held w)))))]
            else [])"
  by (simp add: detectPatternAnomalies_def GetRecentEvents_ok [OF assms] count_faults_on_events)

lemma AnalyzeEvent_ok:
  fixes ad :: AnomalyDetector and e :: SensorEvent
  assumes ok: "detector_ok ad"
  defines "H \<equiv> history ad (MachineID e) @ [e]"
  shows "\<exists>ad' rapid unstable.
     AnalyzeEvent ad e =
       Inr (ad',
         detectThresholdViolations ad e @
         (if length (lastn 10 H) < 5 then []
          else (if rapid then filter (\<lambda>a. alertCallback ad) [rapid_temperature_change_alert e]
                else []) @
               (if unstable then filter (\<lambda>a. alertCallback ad) [speed_instability_alert e]
                else [])) @
         (if length (lastn 20 H) < 10 then []
          else if 3 \<le> length (filter (\<lambda>x. Status x = ''fault'') (lastn 20 H)) then
            filter (\<lambda>a. alertCallback ad)
              [repeated_faults_alert (int (length (filter (\<lambda>x. Status x = ''fault'') (lastn 20 H))))]
          else [])) \<and>
     detectRapidTemperatureChange (map Some (lastn 10 H)) = Inr rapid \<and>
     detectSpeedInstability (map Some (lastn 10 H)) = Inr unstable \<and>
     detector_ok ad' \<and> thresholds ad' = thresholds ad \<and> alertCallback ad' = alertCallback ad \<and>
     (\<forall>m. history ad' m = (if m = MachineID e then lastn 50 H else history ad m))"
proof -
  define w0 where "w0 = (case slidingWindow ad (MachineID e) of Some w \<Rightarrow> w | None \<Rightarrow> NewSlidingWindow 50)"
  have w0: "window_ok w0" "maxSize w0 = 50" "held w0 = history ad (MachineID e)"
    unfolding w0_def by (rule window0_ok [OF ok])+
  obtain w where add: "Add w0 e = Inr w"
    using Add_defined [OF w0(1)] by blast
  have w: "window_ok w" "maxSize w = 50" "held w = lastn 50 H"
    using Add_window_ok [OF w0(1) add] Add_maxSize [OF w0(1) add] Add_held [OF w0(1) add] w0
    by (simp_all add: H_def)
  have t10: "lastn 10 (held w) = lastn 10 H" and t20: "lastn 20 (held w) = lastn 20 H"
    by (simp_all add: w(3) lastn_lastn)
  define ad' where "ad' = ad\<lparr>slidingWindow := (slidingWindow ad)(MachineID e \<mapsto> w)\<rparr>"
  have cb: "alertCallback ad' = alertCallback ad" and th: "thresholds ad' = thresholds ad"
    by (simp_all add: ad'_def)
  have thr: "detectThresholdViolations ad' e = detectThresholdViolations ad e"
    by (simp add: ad'_def detectThresholdViolations_window)
  from detectTrendAnomalies_ok [OF w(1), of ad' e] obtain rapid unstable where
    r: "detectRapidTemperatureChange (map Some (lastn 10 H)) = Inr rapid" and
    u: "detectSpeedInstability (map Some (lastn 10 H)) = Inr unstable" and
    trend: "detectTrendAnomalies ad' e w =
       Inr (if length (lastn 10 H) < 5 then []
            else (if rapid then filter (\<lambda>a. alertCallback ad) [rapid_temperature_change_alert e]
                  else []) @
                 (if unstable then filter (\<lambda>a. alertCallback ad) [speed_instability_alert e]
                  else []))"
    unfolding t10 cb by blast
  note pat = detectPatternAnomalies_ok [OF w(1), of ad' e, unfolded t20 cb]
  have an: "AnalyzeEvent ad e = Inr (ad', detectThresholdViolations ad e @
         (if length (lastn 10 H) < 5 then []
          else (if rapid then filter (\<lambda>a. alertCallback ad) [rapid_temperature_change_alert e]
                else []) @
               (if unstable then filter (\<lambda>a. alertCallback ad) [speed_instability_alert e]
                else [])) @
         (if length (lastn 20 H) < 10 then []
          else if 3 \<le> length (filter (\<lambda>x. Status x = ''fault'') (lastn 20 H)) then
            filter (\<lambda>a. alertCallback ad)
              [repeated_faults_alert (int (length (filter (\<lambda>x. Status x = ''fault'') (lastn 20 H))))]
          else []))"
    unfolding AnalyzeEvent_def Let_def w0_def [symmetric] add sum.case ad'_def [symmetric]
    by (simp only: trend pat thr sum.case)
  have ok': "detector_ok ad'"
    using ok w by (auto simp: detector_ok_def ad'_def)
  have hist: "\<forall>m. history ad' m = (if m = MachineID e then lastn 50 H else history ad m)"
    by (simp add: history_def ad'_def w(3))
  show ?thesis
    by (rule exI [of _ ad'], rule exI [of _ rapid], rule exI [of _ unstable])
       (intro conjI an r u ok' th cb hist)
qed

lemma detector_with_ok:
  assumes "length evs < 50"
  shows "detector_ok (detector_with m evs)"
    and "history (detector_with m evs) m = evs"
    and "alertCallback (detector_with m evs)"
    and "thresholds (detector_with m evs) = thresholds (NewAnomalyDetector True)"
  using assms
  by (simp_all add: detector_ok_def detector_with_def history_def window_ok_def held_def
      NewAnomalyDetector_def list_all_iff comp_def)

lemma NewAnomalyDetector_ok:
  shows "detector_ok (NewAnomalyDetector cb)"
    and "history (NewAnomalyDetector cb) m = []"
  by (simp_all add: detector_ok_def NewAnomalyDetector_def history_def)

lemma Sub_nonpos: "t \<le> u \<Longrightarrow> Sub t u \<le> 0"
  by (simp add: Sub_def Let_def maxDuration_def minDuration_def)


lemma Sub_pos: "u < t \<Longrightarrow> 0 < Sub t u"
  by (simp add: Sub_def Let_def maxDuration_def minDuration_def)

lemma Seconds_pos_iff: "0 < Seconds d \<longleftrightarrow> 0 < d"
  by (simp add: Seconds_eq)

lemma lastn_nth_from_end:
  assumes "0 < k" "k \<le> n" "k \<le> length xs"
  shows "lastn n xs ! (length (lastn n xs) - k) = xs ! (length xs - k)"
proof -
  have "length xs - n + (min n (length xs) - k) = length xs - k"
    using assms by (simp add: min_def)
  moreover have "length xs - n + (min n (length xs) - k) \<le> length xs"
    using assms by (simp add: min_def)
  ultimately show ?thesis
    using assms by (simp add: lastn_def min_def split: if_splits)
qed

lemma rapid_on_tail:
  fixes hs :: "SensorEvent list"
  assumes "4 \<le> length hs"
  shows "detectRapidTemperatureChange (map Some (lastn 10 (hs @ [e]))) =
         Inr (let oldest = hs ! (length hs - 4);
                  timeSpan = Seconds (Sub (Timestamp e) (Timestamp oldest));
                  changeRate = (Temperature e - Temperature oldest) / timeSpan
              in timeSpan > 0 \<and> (changeRate > 2 \<or> changeRate < - 2))"
proof -
  let ?T = "lastn 10 (hs @ [e])"
  have len: "5 \<le> length ?T"
    using assms by (simp add: length_lastn)
  have "?T ! (length ?T - 1) = (hs @ [e]) ! (length (hs @ [e]) - 1)"
    by (rule lastn_nth_from_end) simp_all
  then have newest: "?T ! (length ?T - 1) = e"
    by simp
  have "?T ! (length ?T - 5) = (hs @ [e]) ! (length (hs @ [e]) - 5)"
    using assms by (intro lastn_nth_from_end) simp_all
  moreover have "length (hs @ [e]) - 5 = length hs - 4" "length hs - 4 < length hs"
    using assms by simp_all
  ultimately have oldest: "?T ! (length ?T - 5) = hs ! (length hs - 4)"
    by (simp add: nth_append)
  show ?thesis
    unfolding rapid_on_events [OF len] newest oldest by (simp add: Let_def)
qed

lemma check_conveyor_speed_types:
  "a \<in> set (check_conveyor_speed th e) \<Longrightarrow>
   AlertType a = ''conveyor_speed_low'' \<or> AlertType a = ''conveyor_speed_high''"
  by (auto simp: check_conveyor_speed_def split: if_splits)

lemma check_temperature_types:
  "a \<in> set (check_temperature th e) \<Longrightarrow>
   AlertType a = ''temperature_low'' \<or> AlertType a = ''temperature_high''"
  by (auto simp: check_temperature_def split: if_splits)

lemma check_robot_arm_angle_types:
  "a \<in> set (check_robot_arm_angle th e) \<Longrightarrow> AlertType a = ''robot_angle_invalid''"
  by (auto simp: check_robot_arm_angle_def split: if_splits)

lemma status_alerts_types:
  "a \<in> set (status_alerts e) \<Longrightarrow>
   AlertType a = EventType e \<and>
   (\<exists>f x. Message a = Sprintf f [ArgS x] \<and>
      (f = ''Machine fault detected: %s'' \<or> f = ''Machine fault: %s'' \<or> f = ''Warning condition: %s''))"
  by (auto simp: status_alerts_def Let_def split: if_splits option.splits dyn.splits)

lemma set_detectThresholdViolations:
  "set (detectThresholdViolations ad e) \<subseteq>
     set (check_conveyor_speed (thresholds ad) e) \<union> set (check_temperature (thresholds ad) e) \<union>
     set (check_robot_arm_angle (thresholds ad) e) \<union> set (status_alerts e)"
  by (auto simp: detectThresholdViolations_def Let_def)

text \<open>The threshold stage never sends one of the three alerts of the later stages.\<close>

lemma threshold_stage_not_trend_pattern:
  "rapid_temperature_change_alert e' \<notin> set (detectThresholdViolations ad e)"
  "speed_instability_alert e' \<notin> set (detectThresholdViolations ad e)"
  "repeated_faults_alert k \<notin> set (detectThresholdViolations ad e)"
  using set_detectThresholdViolations [of ad e]
  by (auto simp: rapid_temperature_change_alert_def speed_instability_alert_def
      repeated_faults_alert_def
      dest!: subsetD check_conveyor_speed_types check_temperature_types
        check_robot_arm_angle_types status_alerts_types)

lemma threshold_stage_types:
  assumes "a \<in> set (detectThresholdViolations ad e)"
    and "AlertType a \<notin> {''conveyor_speed_low'', ''conveyor_speed_high'', ''temperature_low'',
           ''temperature_high'', ''robot_angle_invalid''}"
  shows "AlertType a = EventType e"
  using set_detectThresholdViolations [of ad e] assms
  by (auto dest!: subsetD check_conveyor_speed_types check_temperature_types
        check_robot_arm_angle_types status_alerts_types)

section \<open>The rapid temperature change check\<close>

text \<open>
  C10. When the machine's window holds the new event and at least four earlier ones, and
  the new event's timestamp is not later than that of the fourth-previous event, the
  rapid-temperature-change check returns false without dividing, the analysis does not
  panic and sends no rapid-temperature-change alert (no alert of that type at all,
  unless the event names its own event type so).
\<close>

theorem no_rapid_alert_without_time_span:
  assumes ok: "detector_ok ad"
    and len: "4 \<le> length (history ad (MachineID e))"
    and ts: "Timestamp e \<le>
             Timestamp (history ad (MachineID e) ! (length (history ad (MachineID e)) - 4))"
  shows "detectRapidTemperatureChange (map Some (lastn 10 (history ad (MachineID e) @ [e]))) = Inr False \<and>
     (\<exists>ad' sent. AnalyzeEvent ad e = Inr (ad', sent) \<and>
        rapid_temperature_change_alert e \<notin> set sent \<and>
        (EventType e \<noteq> ''rapid_temperature_change'' \<longrightarrow>
           (\<forall>a \<in> set sent. AlertType a \<noteq> ''rapid_temperature_change'')))"
proof -
  let ?hs = "history ad (MachineID e)"
  have "Seconds (Sub (Timestamp e) (Timestamp (?hs ! (length ?hs - 4)))) \<le> 0"
    using Sub_nonpos [OF ts] by (simp add: Seconds_eq)
  then have rf: "detectRapidTemperatureChange (map Some (lastn 10 (?hs @ [e]))) = Inr False"
    by (simp add: rapid_on_tail [OF len] Let_def)
  from AnalyzeEvent_ok [OF ok, of e] obtain ad' rapid unstable where
    an: "AnalyzeEvent ad e =
       Inr (ad',
         detectThresholdViolations ad e @
         (if length (lastn 10 (?hs @ [e])) < 5 then []
          else (if rapid then filter (\<lambda>a. alertCallback ad) [rapid_temperature_change_alert e]
                else []) @
               (if unstable then filter (\<lambda>a. alertCallback ad) [speed_instability_alert e]
                else [])) @
         (if length (lastn 20 (?hs @ [e])) < 10 then []
          else if 3 \<le> length (filter (\<lambda>x. Status x = ''fault'') (lastn 20 (?hs @ [e]))) then
            filter (\<lambda>a. alertCallback ad)
              [repeated_faults_alert (int (length (filter (\<lambda>x. Status x = ''fault'') (lastn 20 (?hs @ [e])))))]
          else []))"
    and r: "detectRapidTemperatureChange (map Some (lastn 10 (?hs @ [e]))) = Inr rapid"
    by blast
  from r rf have nr: "\<not> rapid" by simp
  let ?sent = "detectThresholdViolations ad e @
         (if length (lastn 10 (?hs @ [e])) < 5 then []
          else (if rapid then filter (\<lambda>a. alertCallback ad) [rapid_temperature_change_alert e]
                else []) @
               (if unstable then filter (\<lambda>a. alertCallback ad) [speed_instability_alert e]
                else [])) @
         (if length (lastn 20 (?hs @ [e])) < 10 then []
          else if 3 \<le> length (filter (\<lambda>x. Status x = ''fault'') (lastn 20 (?hs @ [e]))) then
            filter (\<lambda>a. alertCallback ad)
              [repeated_faults_alert (int (length (filter (\<lambda>x. Status x = ''fault'') (lastn 20 (?hs @ [e])))))]
          else [])"
  have not_in: "rapid_temperature_change_alert e \<notin> set ?sent"
    using nr threshold_stage_not_trend_pattern(1) [of e ad e]
    by (auto simp: rapid_temperature_change_alert_def speed_instability_alert_def
        repeated_faults_alert_def split: if_splits)
  have no_type: "\<forall>a \<in> set ?sent. AlertType a \<noteq> ''rapid_temperature_change''"
    if "EventType e \<noteq> ''rapid_temperature_change''"
  proof
    fix a assume a: "a \<in> set ?sent"
    show "AlertType a \<noteq> ''rapid_temperature_change''"
    proof (cases "a \<in> set (detectThresholdViolations ad e)")
      case True
      show ?thesis
      proof
        assume ty: "AlertType a = ''rapid_temperature_change''"
        then have "AlertType a = EventType e"
          by (intro threshold_stage_types [OF True]) simp
        with ty that show False by simp
      qed
    next
      case False
      with a nr show ?thesis
        by (auto simp: speed_instability_alert_def repeated_faults_alert_def split: if_splits)
    qed
  qed
  show ?thesis
    using rf an not_in no_type by blast
qed

theorem no_rapid_alert_without_time_span_witness:
  "detector_ok (detector_with ''m1'' [heat 5 20, heat 4 24, heat 3 28, heat 2 32]) \<and>
   detectRapidTemperatureChange
     (map Some [heat 5 20, heat 4 24, heat 3 28, heat 2 32, heat 1 35]) = Inr False \<and>
   (\<exists>ad' sent.
      AnalyzeEvent (detector_with ''m1'' [heat 5 20, heat 4 24, heat 3 28, heat 2 32]) (heat 1 35)
        = Inr (ad', sent) \<and>
      (\<forall>a \<in> set sent. AlertType a \<noteq> ''rapid_temperature_change''))"
proof -
  let ?hs = "[heat 5 20, heat 4 24, heat 3 28, heat 2 32]"
  have m: "MachineID (heat 1 35) = ''m1''" and ty: "EventType (heat 1 35) \<noteq> ''rapid_temperature_change''"
    by (simp_all add: heat_def reading_def)
  have ok: "detector_ok (detector_with ''m1'' ?hs)"
    and h: "history (detector_with ''m1'' ?hs) (MachineID (heat 1 35)) = ?hs"
    unfolding m by (rule detector_with_ok, simp)+
  have ts: "Timestamp (heat 1 35) \<le>
      Timestamp (history (detector_with ''m1'' ?hs) (MachineID (heat 1 35)) !
        (length (history (detector_with ''m1'' ?hs) (MachineID (heat 1 35))) - 4))"
    unfolding h by (simp add: heat_def reading_def)
  have len: "4 \<le> length (history (detector_with ''m1'' ?hs) (MachineID (heat 1 35)))"
    unfolding h by simp
  show ?thesis
    using no_rapid_alert_without_time_span [OF ok len ts] ok ty
    unfolding h by (simp add: lastn_def) blast
qed


lemma filter_type_threshold_stage:
  assumes "ty \<notin> {''conveyor_speed_low'', ''conveyor_speed_high'', ''temperature_low'',
           ''temperature_high'', ''robot_angle_invalid''}"
    and "EventType e \<noteq> ty"
  shows "filter (\<lambda>a. AlertType a = ty) (detectThresholdViolations ad e) = []"
  unfolding filter_empty_conv
proof
  fix a assume a: "a \<in> set (detectThresholdViolations ad e)"
  show "AlertType a \<noteq> ty"
  proof
    assume "AlertType a = ty"
    with threshold_stage_types [OF a] assms show False by auto
  qed
qed





section \<open>The repeated faults check\<close>

text \<open>
  C4. With the callback set and at least 10 events in the last-20 tail of the machine's
  window (the new event included), analysing an event sends the high-severity
  repeated-faults alert, once and with the number of faults, when at least 3 events of
  the tail have status fault, and does not send it when fewer have. It is then the only
  alert of type \<open>repeated_faults\<close>, unless the event names its own event type so.
\<close>

theorem repeated_faults_alert_iff:
  fixes ad :: AnomalyDetector and e :: SensorEvent
  defines "tail \<equiv> lastn 20 (history ad (MachineID e) @ [e])"
  defines "k \<equiv> length (filter (\<lambda>x. Status x = ''fault'') tail)"
  assumes ok: "detector_ok ad" and cb: "alertCallback ad"
    and len: "10 \<le> length tail"
  shows "\<exists>ad' sent. AnalyzeEvent ad e = Inr (ad', sent) \<and>
     ((\<exists>j. repeated_faults_alert j \<in> set sent) \<longleftrightarrow> 3 \<le> k) \<and>
     filter (\<lambda>a. \<exists>j. a = repeated_faults_alert j) sent =
       (if 3 \<le> k then [repeated_faults_alert (int k)] else []) \<and>
     Severity (repeated_faults_alert (int k)) = ''high'' \<and>
     (EventType e \<noteq> ''repeated_faults'' \<longrightarrow>
        filter (\<lambda>a. AlertType a = ''repeated_faults'') sent =
          (if 3 \<le> k then [repeated_faults_alert (int k)] else []))"
proof -
  from AnalyzeEvent_ok [OF ok, of e] obtain ad' rapid unstable where
    an: "AnalyzeEvent ad e =
       Inr (ad',
         detectThresholdViolations ad e @
         (if length (lastn 10 (history ad (MachineID e) @ [e])) < 5 then []
          else (if rapid then filter (\<lambda>a. alertCallback ad) [rapid_temperature_change_alert e]
                else []) @
               (if unstable then filter (\<lambda>a. alertCallback ad) [speed_instability_alert e]
                else [])) @
         (if length tail < 10 then []
          else if 3 \<le> k then filter (\<lambda>a. alertCallback ad) [repeated_faults_alert (int k)]
          else []))"
    unfolding tail_def k_def by blast
  let ?trend = "(if length (lastn 10 (history ad (MachineID e) @ [e])) < 5 then []
          else (if rapid then [rapid_temperature_change_alert e] else []) @
               (if unstable then [speed_instability_alert e] else []))"
  let ?sent = "detectThresholdViolations ad e @ ?trend @
         (if 3 \<le> k then [repeated_faults_alert (int k)] else [])"
  have an': "AnalyzeEvent ad e = Inr (ad', ?sent)"
    using an len cb by simp
  have thr: "filter (\<lambda>a. \<exists>j. a = repeated_faults_alert j) (detectThresholdViolations ad e) = []"
    unfolding filter_empty_conv using threshold_stage_not_trend_pattern(3) [of _ ad e] by auto
  have trend: "filter (\<lambda>a. \<exists>j. a = repeated_faults_alert j) ?trend = []"
    by (simp add: rapid_temperature_change_alert_def speed_instability_alert_def
        repeated_faults_alert_def)
  have f1: "filter (\<lambda>a. \<exists>j. a = repeated_faults_alert j) ?sent =
       (if 3 \<le> k then [repeated_faults_alert (int k)] else [])"
    unfolding filter_append thr trend by auto
  have mem: "(\<exists>j. repeated_faults_alert j \<in> set ?sent) \<longleftrightarrow> 3 \<le> k"
  proof -
    have "(\<exists>j. repeated_faults_alert j \<in> set ?sent) \<longleftrightarrow>
          filter (\<lambda>a. \<exists>j. a = repeated_faults_alert j) ?sent \<noteq> []"
      unfolding filter_empty_conv by blast
    then show ?thesis unfolding f1 by simp
  qed
  have trend2: "filter (\<lambda>a. AlertType a = ''repeated_faults'') ?trend = []"
    by (simp add: rapid_temperature_change_alert_def speed_instability_alert_def)
  have f2: "filter (\<lambda>a. AlertType a = ''repeated_faults'') ?sent =
          (if 3 \<le> k then [repeated_faults_alert (int k)] else [])"
    if "EventType e \<noteq> ''repeated_faults''"
    unfolding filter_append trend2 using that
    by (simp add: filter_type_threshold_stage repeated_faults_alert_def)
  have sev: "Severity (repeated_faults_alert (int k)) = ''high''"
    by (simp add: repeated_faults_alert_def)
  show ?thesis
    using an' mem f1 f2 sev by blast
qed

theorem repeated_faults_alert_iff_witness:
  "(\<exists>ad' sent.
      AnalyzeEvent
        (detector_with ''m1''
          [probe 1, probe 2, faulty 3, probe 4, probe 5, probe 6, probe 7, probe 8, probe 9,
           probe 10, probe 11, faulty 12, probe 13, probe 14, probe 15, probe 16, probe 17,
           probe 18, probe 19])
        (faulty 20) = Inr (ad', sent) \<and>
      filter (\<lambda>a. AlertType a = ''repeated_faults'') sent = [repeated_faults_alert 3]) \<and>
   (\<exists>ad' sent.
      AnalyzeEvent
        (detector_with ''m1''
          [probe 1, probe 2, faulty 3, probe 4, probe 5, probe 6, probe 7, probe 8, probe 9,
           probe 10, probe 11, faulty 12, probe 13, probe 14, probe 15, probe 16, probe 17,
           probe 18, probe 19])
        (probe 20) = Inr (ad', sent) \<and>
      filter (\<lambda>a. AlertType a = ''repeated_faults'') sent = [])"
proof -
  let ?hs = "[probe 1, probe 2, faulty 3, probe 4, probe 5, probe 6, probe 7, probe 8, probe 9,
           probe 10, probe 11, faulty 12, probe 13, probe 14, probe 15, probe 16, probe 17,
           probe 18, probe 19]"
  let ?D = "detector_with ''m1'' ?hs"
  have m: "\<And>t. MachineID (faulty t) = ''m1''" "\<And>t. MachineID (probe t) = ''m1''"
    by (simp_all add: faulty_def probe_def reading_def)
  have st: "\<And>t. Status (faulty t) = ''fault''" "\<And>t. Status (probe t) = ''ok''"
    "\<And>t. EventType (faulty t) = ''conveyor_jam''" "\<And>t. EventType (probe t) = ''normal_operation''"
    by (simp_all add: faulty_def probe_def reading_def)
  have ok: "detector_ok ?D" and cb: "alertCallback ?D" and h: "history ?D ''m1'' = ?hs"
    by (rule detector_with_ok, simp)+
  have a: "\<exists>ad' sent. AnalyzeEvent ?D (faulty 20) = Inr (ad', sent) \<and>
      filter (\<lambda>a. AlertType a = ''repeated_faults'') sent = [repeated_faults_alert 3]"
    using repeated_faults_alert_iff [of ?D "faulty 20", OF ok cb]
    unfolding m h by (simp add: lastn_def st) blast
  have b: "\<exists>ad' sent. AnalyzeEvent ?D (probe 20) = Inr (ad', sent) \<and>
      filter (\<lambda>a. AlertType a = ''repeated_faults'') sent = []"
    using repeated_faults_alert_iff [of ?D "probe 20", OF ok cb]
    unfolding m h by (simp add: lastn_def st) blast
  from a b show ?thesis by blast
qed

section \<open>The speed instability check\<close>










section \<open>The threshold checks\<close>

lemma detectThresholdViolations_sent:
  "alertCallback ad \<Longrightarrow>
   detectThresholdViolations ad e =
     check_conveyor_speed (thresholds ad) e @ check_temperature (thresholds ad) e @
     check_robot_arm_angle (thresholds ad) e @ status_alerts e"
  by (simp add: detectThresholdViolations_def)







lemma UpdateThresholds_ok:
  "detector_ok (UpdateThresholds ad th) = detector_ok ad"
  "history (UpdateThresholds ad th) m = history ad m"
  "alertCallback (UpdateThresholds ad th) = alertCallback ad"
  "thresholds (UpdateThresholds ad th) = th"
  by (simp_all add: UpdateThresholds_def detector_ok_def history_def)

text \<open>What an analysis sends for the first event held of a machine: the threshold stage only.\<close>

lemma AnalyzeEvent_first:
  assumes ok: "detector_ok ad" and first: "history ad (MachineID e) = []"
  shows "\<exists>ad'. AnalyzeEvent ad e = Inr (ad', detectThresholdViolations ad e)"
  using AnalyzeEvent_ok [OF ok, of e] unfolding first
  by (auto simp: lastn_def)





text \<open>
  C8. Under thresholds whose speed range is \<open>[0.5, 3.0]\<close> and whose temperature and angle
  ranges hold 72 and 90, with the callback set, analysing as the first event of machine
  \<open>m1\<close> the event with speed 0, temperature 72, angle 90, status fault and event type
  \<open>conveyor_jam\<close> sends exactly two alerts: \<open>conveyor_speed_low\<close> with severity high, then
  \<open>conveyor_jam\<close> with severity high, whose message carries the string found under
  \<open>description\<close> in the additional data when there is one.
\<close>

theorem conveyor_jam_two_alerts:
  fixes ad :: AnomalyDetector and t :: int and extra :: "string \<rightharpoonup> dyn"
  defines "e \<equiv> \<lparr>Timestamp = t, MachineID = ''m1'', ConveyorSpeed = 0.0, Temperature = 72,
                 RobotArmAngle = 90, Status = ''fault'', EventType = ''conveyor_jam'',
                 AdditionalData = extra\<rparr>"
  assumes ok: "detector_ok ad" and cb: "alertCallback ad"
    and first: "history ad ''m1'' = []"
    and speed: "ConveyorSpeedMin (thresholds ad) = 0.5" "ConveyorSpeedMax (thresholds ad) = 3.0"
    and temp: "TemperatureMin (thresholds ad) \<le> 72" "72 \<le> TemperatureMax (thresholds ad)"
    and angle: "RobotAngleMin (thresholds ad) \<le> 90" "90 \<le> RobotAngleMax (thresholds ad)"
  shows "\<exists>ad'. AnalyzeEvent ad e =
     Inr (ad',
       [\<lparr>AlertType = ''conveyor_speed_low'', Severity = ''high'',
         Message = Sprintf ''Conveyor speed below minimum threshold: %.2f m/s (min: %.2f)''
                     [ArgF 0, ArgF 0.5]\<rparr>,
        \<lparr>AlertType = ''conveyor_jam'', Severity = ''high'',
         Message =
           (case extra ''description'' of
              Some (DynString faultDesc) \<Rightarrow> Sprintf ''Machine fault: %s'' [ArgS faultDesc]
            | _ \<Rightarrow> Sprintf ''Machine fault detected: %s'' [ArgS ''conveyor_jam''])\<rparr>])"
proof -
  have m: "MachineID e = ''m1''" by (simp add: e_def)
  have c1: "check_conveyor_speed (thresholds ad) e =
      [\<lparr>AlertType = ''conveyor_speed_low'', Severity = ''high'',
         Message = Sprintf ''Conveyor speed below minimum threshold: %.2f m/s (min: %.2f)''
                     [ArgF 0, ArgF 0.5]\<rparr>]"
    using speed by (simp add: check_conveyor_speed_def e_def)
  have c2: "check_temperature (thresholds ad) e = []"
    using temp by (simp add: check_temperature_def e_def)
  have c3: "check_robot_arm_angle (thresholds ad) e = []"
    using angle by (simp add: check_robot_arm_angle_def e_def)
  have c4: "status_alerts e =
      [\<lparr>AlertType = ''conveyor_jam'', Severity = ''high'',
         Message =
           (case extra ''description'' of
              Some (DynString faultDesc) \<Rightarrow> Sprintf ''Machine fault: %s'' [ArgS faultDesc]
            | _ \<Rightarrow> Sprintf ''Machine fault detected: %s'' [ArgS ''conveyor_jam''])\<rparr>]"
    by (simp add: status_alerts_def e_def Let_def)
  from AnalyzeEvent_first [OF ok, of e] first m
  obtain ad' where "AnalyzeEvent ad e = Inr (ad', detectThresholdViolations ad e)"
    by auto
  then show ?thesis
    unfolding detectThresholdViolations_sent [OF cb] c1 c2 c3 c4 by auto
qed

theorem conveyor_jam_two_alerts_witness:
  "\<exists>ad'. AnalyzeEvent
      (UpdateThresholds (NewAnomalyDetector True)
         \<lparr>ConveyorSpeedMin = 0.5, ConveyorSpeedMax = 3.0, TemperatureMin = 15,
          TemperatureMax = 85, RobotAngleMin = 0, RobotAngleMax = 180\<rparr>)
      \<lparr>Timestamp = 0, MachineID = ''m1'', ConveyorSpeed = 0.0, Temperature = 72,
       RobotArmAngle = 90, Status = ''fault'', EventType = ''conveyor_jam'',
       AdditionalData = [''description'' \<mapsto> DynString ''belt blocked'']\<rparr> =
     Inr (ad',
       [\<lparr>AlertType = ''conveyor_speed_low'', Severity = ''high'',
         Message = Sprintf ''Conveyor speed below minimum threshold: %.2f m/s (min: %.2f)''
                     [ArgF 0, ArgF 0.5]\<rparr>,
        \<lparr>AlertType = ''conveyor_jam'', Severity = ''high'',
         Message = Sprintf ''Machine fault: %s'' [ArgS ''belt blocked'']\<rparr>])"
proof -
  let ?ad = "UpdateThresholds (NewAnomalyDetector True)
         \<lparr>ConveyorSpeedMin = 0.5, ConveyorSpeedMax = 3.0, TemperatureMin = 15,
          TemperatureMax = 85, RobotAngleMin = 0, RobotAngleMax = 180\<rparr>"
  have ok: "detector_ok ?ad" and first: "history ?ad ''m1'' = []"
    by (simp_all add: UpdateThresholds_ok NewAnomalyDetector_ok)
  have cb: "alertCallback ?ad"
    by (simp add: UpdateThresholds_ok NewAnomalyDetector_def)
  show ?thesis
    using conveyor_jam_two_alerts
      [OF ok cb first, of 0 "[''description'' \<mapsto> DynString ''belt blocked'']"]
    by (simp add: UpdateThresholds_ok)
qed

section \<open>Validation and routing in the consumer\<close>

lemma validStatuses_iff:
  "(case validStatuses s of Some b \<Rightarrow> b | None \<Rightarrow> False) \<longleftrightarrow>
     s = ''ok'' \<or> s = ''warning'' \<or> s = ''fault''"
  by (simp add: validStatuses_def)

lemma validateEvent_None_iff:
  "validateEvent e = None \<longleftrightarrow>
     MachineID e \<noteq> [] \<and> EventType e \<noteq> [] \<and>
     (Status e = ''ok'' \<or> Status e = ''warning'' \<or> Status e = ''fault'') \<and>
     0 \<le> ConveyorSpeed e \<and> ConveyorSpeed e \<le> 10 \<and>
     - 50 \<le> Temperature e \<and> Temperature e \<le> 200 \<and>
     0 \<le> RobotArmAngle e \<and> RobotArmAngle e \<le> 360"
  unfolding validateEvent_def validStatuses_iff by auto

lemma try_send_open:
  "\<not> is_closed ch \<Longrightarrow>
   try_send ch v =
     Inr (if length (buf ch) < capacity ch then Some (ch\<lparr>buf := buf ch @ [v]\<rparr>) else None)"
  by (simp add: try_send_def)

text \<open>
  C7, as the code has it. Validation returns no error exactly for an event with non-empty
  machine id and event type, a status among ok, warning and fault, and the three
  quantities within [0, 10], [-50, 200] and [0, 360]. A message that fails decoding or
  validation never reaches the event channel and is reported on the error channel when
  that channel has room (otherwise it is dropped unreported); a valid event is put on
  the event channel when that channel has room (otherwise it is dropped), and leaves the
  error channel as it was. With both channels open the call does not panic.
\<close>

theorem processMessage_routing:
  assumes open_ev: "\<not> is_closed (eventChannel c)" and open_err: "\<not> is_closed (errorChannel c)"
  shows "(validateEvent e = None \<longleftrightarrow>
            MachineID e \<noteq> [] \<and> EventType e \<noteq> [] \<and>
            (Status e = ''ok'' \<or> Status e = ''warning'' \<or> Status e = ''fault'') \<and>
            0 \<le> ConveyorSpeed e \<and> ConveyorSpeed e \<le> 10 \<and>
            - 50 \<le> Temperature e \<and> Temperature e \<le> 200 \<and>
            0 \<le> RobotArmAngle e \<and> RobotArmAngle e \<le> 360) \<and>
     (\<exists>c'. processMessage unmarshal c msg = Inr c' \<and>
        (case unmarshal msg of
           Inl err \<Rightarrow>
             eventChannel c' = eventChannel c \<and>
             errorChannel c' =
               (if length (buf (errorChannel c)) < capacity (errorChannel c)
                then (errorChannel c)\<lparr>buf := buf (errorChannel c) @
                       [Sprintf ''failed to unmarshal message: %v'' [ArgV err]]\<rparr>
                else errorChannel c)
         | Inr event \<Rightarrow>
             (case validateEvent event of
                Some err \<Rightarrow>
                  eventChannel c' = eventChannel c \<and>
                  errorChannel c' =
                    (if length (buf (errorChannel c)) < capacity (errorChannel c)
                     then (errorChannel c)\<lparr>buf := buf (errorChannel c) @
                            [Sprintf ''invalid event: %v'' [ArgV err]]\<rparr>
                     else errorChannel c)
              | None \<Rightarrow>
                  errorChannel c' = errorChannel c \<and>
                  eventChannel c' =
                    (if length (buf (eventChannel c)) < capacity (eventChannel c)
                     then (eventChannel c)\<lparr>buf := buf (eventChannel c) @ [event]\<rparr>
                     else eventChannel c))))"
proof (intro conjI)
  show "validateEvent e = None \<longleftrightarrow>
            MachineID e \<noteq> [] \<and> EventType e \<noteq> [] \<and>
            (Status e = ''ok'' \<or> Status e = ''warning'' \<or> Status e = ''fault'') \<and>
            0 \<le> ConveyorSpeed e \<and> ConveyorSpeed e \<le> 10 \<and>
            - 50 \<le> Temperature e \<and> Temperature e \<le> 200 \<and>
            0 \<le> RobotArmAngle e \<and> RobotArmAngle e \<le> 360"
    by (rule validateEvent_None_iff)
next
  show "\<exists>c'. processMessage unmarshal c msg = Inr c' \<and>
        (case unmarshal msg of
           Inl err \<Rightarrow>
             eventChannel c' = eventChannel c \<and>
             errorChannel c' =
               (if length (buf (errorChannel c)) < capacity (errorChannel c)
                then (errorChannel c)\<lparr>buf := buf (errorChannel c) @
                       [Sprintf ''failed to unmarshal message: %v'' [ArgV err]]\<rparr>
                else errorChannel c)
         | Inr event \<Rightarrow>
             (case validateEvent event of
                Some err \<Rightarrow>
                  eventChannel c' = eventChannel c \<and>
                  errorChannel c' =
                    (if length (buf (errorChannel c)) < capacity (errorChannel c)
                     then (errorChannel c)\<lparr>buf := buf (errorChannel c) @
                            [Sprintf ''invalid event: %v'' [ArgV err]]\<rparr>
                     else errorChannel c)
              | None \<Rightarrow>
                  errorChannel c' = errorChannel c \<and>
                  eventChannel c' =
                    (if length (buf (eventChannel c)) < capacity (eventChannel c)
                     then (eventChannel c)\<lparr>buf := buf (eventChannel c) @ [event]\<rparr>
                     else eventChannel c)))"
  proof (cases "unmarshal msg")
    case (Inl err)
    then show ?thesis
      by (simp add: processMessage_def try_send_open [OF open_err])
  next
    case (Inr event)
    then show ?thesis
      by (cases "validateEvent event")
         (simp_all add: processMessage_def try_send_open [OF open_err] try_send_open [OF open_ev])
  qed
qed

theorem processMessage_routing_witness:
  "validateEvent (probe 1) = None \<and>
   (\<exists>c'. processMessage (\<lambda>msg. Inr (probe 1))
            \<lparr>eventChannel = make_chan 100, errorChannel = make_chan 10\<rparr> [] = Inr c' \<and>
         buf (eventChannel c') = [probe 1] \<and> errorChannel c' = make_chan 10)"
proof -
  have v: "validateEvent (probe 1) = None"
    by (simp add: validateEvent_None_iff probe_def reading_def)
  show ?thesis
    using processMessage_routing
      [of "\<lparr>eventChannel = make_chan 100, errorChannel = make_chan 10\<rparr>" "probe 1"
          "\<lambda>msg. Inr (probe 1)" "[]"]
    by (auto simp: v make_chan_def)
qed

text \<open>
  A valid event met by a full event channel is not forwarded, and a decoding error met
  by a full error channel is not reported.
\<close>

theorem full_channel_drop_counterexample:
  "validateEvent (probe 1) = None \<and>
   map_sum id (buf \<circ> eventChannel)
     (processMessage (\<lambda>msg. Inr (probe 1))
        \<lparr>eventChannel = \<lparr>buf = replicate 100 (probe 0), capacity = 100, is_closed = False\<rparr>,
         errorChannel = make_chan 10\<rparr> []) = Inr (replicate 100 (probe 0)) \<and>
   probe 1 \<notin> set (replicate 100 (probe 0)) \<and>
   map_sum id (\<lambda>c'. (buf (eventChannel c'), buf (errorChannel c')))
     (processMessage (\<lambda>msg. Inl (Sprintf ''unexpected end of JSON input'' []))
        \<lparr>eventChannel = make_chan 100,
         errorChannel = \<lparr>buf = replicate 10 (Sprintf ''earlier error'' []), capacity = 10,
                          is_closed = False\<rparr>\<rparr> [])
     = Inr ([], replicate 10 (Sprintf ''earlier error'' []))"
proof -
  have v: "validateEvent (probe 1) = None"
    by (simp add: validateEvent_None_iff probe_def reading_def)
  have d: "probe 1 \<noteq> probe 0"
    by (simp add: probe_def reading_def)
  show ?thesis
    by (simp add: v d processMessage_def try_send_def make_chan_def)
qed

section \<open>Broadcast in the hub\<close>

lemma broadcast_one_open:
  assumes "\<not> is_closed (send h client)"
  shows "broadcast_one message h client =
     Inr (if length (buf (send h client)) < capacity (send h client)
          then h\<lparr>send := (send h)(client := (send h client)\<lparr>buf := buf (send h client) @ [message]\<rparr>)\<rparr>
          else h\<lparr>send := (send h)(client := (send h client)\<lparr>is_closed := True\<rparr>),
                 clients := clients h - {client}\<rparr>)"
  using assms by (simp add: broadcast_one_def try_send_def close_chan_def)

lemma broadcast_range_effect:
  assumes "distinct order" and "\<forall>c \<in> set order. \<not> is_closed (send h c)"
  shows "\<exists>h'. broadcast_range message order h = Inr h' \<and>
     (\<forall>c. send h' c =
        (if c \<in> set order then
           (if length (buf (send h c)) < capacity (send h c)
            then (send h c)\<lparr>buf := buf (send h c) @ [message]\<rparr>
            else (send h c)\<lparr>is_closed := True\<rparr>)
         else send h c)) \<and>
     clients h' =
       clients h - {c \<in> set order. \<not> length (buf (send h c)) < capacity (send h c)}"
  using assms
proof (induction order arbitrary: h)
  case Nil
  then show ?case by simp
next
  case (Cons client rest)
  let ?h1 = "(if length (buf (send h client)) < capacity (send h client)
          then h\<lparr>send := (send h)(client := (send h client)\<lparr>buf := buf (send h client) @ [message]\<rparr>)\<rparr>
          else h\<lparr>send := (send h)(client := (send h client)\<lparr>is_closed := True\<rparr>),
                 clients := clients h - {client}\<rparr>)"
  from Cons.prems have op: "\<not> is_closed (send h client)" and d: "distinct rest"
    and notin: "client \<notin> set rest"
    by simp_all
  have one: "broadcast_one message h client = Inr ?h1"
    by (rule broadcast_one_open [OF op])
  have same: "\<forall>c \<in> set rest. send ?h1 c = send h c"
    using notin by auto
  with Cons.prems have "\<forall>c \<in> set rest. \<not> is_closed (send ?h1 c)"
    by simp
  from Cons.IH [OF d this] obtain h' where
    r: "broadcast_range message rest ?h1 = Inr h'"
    and s: "\<forall>c. send h' c =
        (if c \<in> set rest then
           (if length (buf (send ?h1 c)) < capacity (send ?h1 c)
            then (send ?h1 c)\<lparr>buf := buf (send ?h1 c) @ [message]\<rparr>
            else (send ?h1 c)\<lparr>is_closed := True\<rparr>)
         else send ?h1 c)"
    and c: "clients h' =
       clients ?h1 - {c \<in> set rest. \<not> length (buf (send ?h1 c)) < capacity (send ?h1 c)}"
    by blast
  have "broadcast_range message (client # rest) h = Inr h'"
    using one r by simp
  moreover have "\<forall>c. send h' c =
        (if c \<in> set (client # rest) then
           (if length (buf (send h c)) < capacity (send h c)
            then (send h c)\<lparr>buf := buf (send h c) @ [message]\<rparr>
            else (send h c)\<lparr>is_closed := True\<rparr>)
         else send h c)"
    using s same notin by auto
  moreover have "clients h' =
       clients h - {c \<in> set (client # rest). \<not> length (buf (send h c)) < capacity (send h c)}"
    unfolding c using same notin by auto
  ultimately show ?case by blast
qed

text \<open>
  C6. One pass of the hub's broadcast case over its registered clients, in whatever order
  the map is walked, returns without panic and without waiting; every registered client
  whose mailbox has room gets the same payload queued at the end of its mailbox and stays
  registered; every registered client whose mailbox is full is removed from the registry
  and has its channel closed; other clients are untouched. So a registered client with
  a mailbox of capacity 1 that takes nothing out of it is unregistered, its channel
  closed, once a second broadcast has run, whatever the other clients did in between.
\<close>

theorem broadcast_delivery:
  assumes ok: "hub_ok h" and enum: "distinct order" "set order = clients h"
  shows "\<exists>h'. broadcast_range message order h = Inr h' \<and> hub_ok h' \<and>
     (\<forall>c \<in> clients h.
        if length (buf (send h c)) < capacity (send h c)
        then c \<in> clients h' \<and> send h' c = (send h c)\<lparr>buf := buf (send h c) @ [message]\<rparr>
        else c \<notin> clients h' \<and> send h' c = (send h c)\<lparr>is_closed := True\<rparr>) \<and>
     (\<forall>c. c \<notin> clients h \<longrightarrow> c \<notin> clients h' \<and> send h' c = send h c) \<and>
     (\<forall>s h1 order2 message2.
        s \<in> clients h \<and> capacity (send h s) = 1 \<and>
        hub_ok h1 \<and> distinct order2 \<and> set order2 = clients h1 \<and>
        send h1 s = send h' s \<and> (s \<in> clients h1 \<longleftrightarrow> s \<in> clients h') \<longrightarrow>
        (\<exists>h2. broadcast_range message2 order2 h1 = Inr h2 \<and>
              s \<notin> clients h2 \<and> is_closed (send h2 s)))"
proof -
  have op: "\<forall>c \<in> set order. \<not> is_closed (send h c)"
    using ok enum(2) by (simp add: hub_ok_def)
  from broadcast_range_effect [OF enum(1) op, of message] obtain h' where
    r: "broadcast_range message order h = Inr h'"
    and s: "\<And>c. send h' c =
        (if c \<in> clients h then
           (if length (buf (send h c)) < capacity (send h c)
            then (send h c)\<lparr>buf := buf (send h c) @ [message]\<rparr>
            else (send h c)\<lparr>is_closed := True\<rparr>)
         else send h c)"
    and c: "clients h' =
       clients h - {c \<in> clients h. \<not> length (buf (send h c)) < capacity (send h c)}"
    unfolding enum(2) by blast
  have ok': "hub_ok h'"
    using ok unfolding hub_ok_def c by (auto simp: s)
  have reg: "\<forall>c \<in> clients h.
        if length (buf (send h c)) < capacity (send h c)
        then c \<in> clients h' \<and> send h' c = (send h c)\<lparr>buf := buf (send h c) @ [message]\<rparr>
        else c \<notin> clients h' \<and> send h' c = (send h c)\<lparr>is_closed := True\<rparr>"
    unfolding c by (auto simp: s)
  have unreg: "\<forall>c. c \<notin> clients h \<longrightarrow> c \<notin> clients h' \<and> send h' c = send h c"
    unfolding c by (auto simp: s)
  have slow: "\<exists>h2. broadcast_range message2 order2 h1 = Inr h2 \<and>
              s \<notin> clients h2 \<and> is_closed (send h2 s)"
    if a: "s \<in> clients h" "capacity (send h s) = 1" "hub_ok h1" "distinct order2"
      "set order2 = clients h1" "send h1 s = send h' s" "s \<in> clients h1 \<longleftrightarrow> s \<in> clients h'"
    for s h1 order2 message2
  proof -
    have op1: "\<forall>c \<in> set order2. \<not> is_closed (send h1 c)"
      using a(3,5) by (simp add: hub_ok_def)
    from broadcast_range_effect [OF a(4) op1, of message2] obtain h2 where
      r2: "broadcast_range message2 order2 h1 = Inr h2"
      and s2: "\<And>c. send h2 c =
        (if c \<in> clients h1 then
           (if length (buf (send h1 c)) < capacity (send h1 c)
            then (send h1 c)\<lparr>buf := buf (send h1 c) @ [message2]\<rparr>
            else (send h1 c)\<lparr>is_closed := True\<rparr>)
         else send h1 c)"
      and c2: "clients h2 =
       clients h1 - {c \<in> clients h1. \<not> length (buf (send h1 c)) < capacity (send h1 c)}"
      unfolding a(5) by blast
    show ?thesis
    proof (cases "length (buf (send h s)) < capacity (send h s)")
      case True
      with a(1) have "send h' s = (send h s)\<lparr>buf := buf (send h s) @ [message]\<rparr>"
        and "s \<in> clients h'"
        using reg by auto
      then have full: "\<not> length (buf (send h1 s)) < capacity (send h1 s)" and in1: "s \<in> clients h1"
        using a(2,6,7) by simp_all
      from in1 full have "s \<notin> clients h2" "is_closed (send h2 s)"
        unfolding c2 by (simp_all add: s2)
      with r2 show ?thesis by blast
    next
      case False
      with a(1) have "send h' s = (send h s)\<lparr>is_closed := True\<rparr>" and "s \<notin> clients h'"
        using reg by auto
      then have cl: "is_closed (send h1 s)" and out1: "s \<notin> clients h1"
        using a(6,7) by simp_all
      from out1 cl have "s \<notin> clients h2" "is_closed (send h2 s)"
        unfolding c2 by (simp_all add: s2)
      with r2 show ?thesis by blast
    qed
  qed
  show ?thesis
    using r ok' reg unreg slow by blast
qed

theorem broadcast_delivery_witness:
  "hub_ok three_clients \<and>
   (\<exists>h1 h2.
      broadcast_range ''e1'' [1, 2, 3] three_clients = Inr h1 \<and>
      clients h1 = {1, 2, 3} \<and>
      buf (send h1 1) = [''e1''] \<and> buf (send h1 2) = [''e1''] \<and> buf (send h1 3) = [''e1''] \<and>
      broadcast_range ''e2'' [3, 2, 1] h1 = Inr h2 \<and>
      1 \<notin> clients h2 \<and> is_closed (send h2 1) \<and>
      buf (send h2 2) = [''e1'', ''e2''] \<and> buf (send h2 3) = [''e1'', ''e2''])"
proof -
  have ok: "hub_ok three_clients"
    by (simp add: hub_ok_def three_clients_def make_chan_def)
  have cl: "clients three_clients = {1, 2, 3}"
    by (simp add: three_clients_def)
  have enum: "distinct [1, 2, 3 :: nat]" "set [1, 2, 3] = clients three_clients"
    by (simp_all add: cl)
  from broadcast_delivery [OF ok enum, of "''e1''"] obtain h1 where
    r1: "broadcast_range ''e1'' [1, 2, 3] three_clients = Inr h1" and ok1: "hub_ok h1"
    and reg1: "\<forall>c \<in> clients three_clients.
        if length (buf (send three_clients c)) < capacity (send three_clients c)
        then c \<in> clients h1 \<and>
             send h1 c = (send three_clients c)\<lparr>buf := buf (send three_clients c) @ [''e1'']\<rparr>
        else c \<notin> clients h1 \<and> send h1 c = (send three_clients c)\<lparr>is_closed := True\<rparr>"
    and unreg1: "\<forall>c. c \<notin> clients three_clients \<longrightarrow>
        c \<notin> clients h1 \<and> send h1 c = send three_clients c"
    and slow1: "\<forall>s h1' order2 message2.
        s \<in> clients three_clients \<and> capacity (send three_clients s) = 1 \<and>
        hub_ok h1' \<and> distinct order2 \<and> set order2 = clients h1' \<and>
        send h1' s = send h1 s \<and> (s \<in> clients h1' \<longleftrightarrow> s \<in> clients h1) \<longrightarrow>
        (\<exists>h2. broadcast_range message2 order2 h1' = Inr h2 \<and>
              s \<notin> clients h2 \<and> is_closed (send h2 s))"
    by blast
  have s1: "send h1 1 = \<lparr>buf = [''e1''], capacity = 1, is_closed = False\<rparr>"
    "send h1 2 = \<lparr>buf = [''e1''], capacity = 256, is_closed = False\<rparr>"
    "send h1 3 = \<lparr>buf = [''e1''], capacity = 256, is_closed = False\<rparr>"
    and in1: "1 \<in> clients h1" "2 \<in> clients h1" "3 \<in> clients h1"
    using reg1 by (simp_all add: three_clients_def make_chan_def)
  have c1: "clients h1 = {1, 2, 3}"
    using in1 unreg1 unfolding cl by auto
  have enum2: "distinct [3, 2, 1 :: nat]" "set [3, 2, 1] = clients h1"
    unfolding c1 by auto
  from slow1 [rule_format, of 1 h1 "[3, 2, 1]" "''e2''"] obtain h2 where
    r2: "broadcast_range ''e2'' [3, 2, 1] h1 = Inr h2"
    and out: "1 \<notin> clients h2" "is_closed (send h2 1)"
    using ok1 enum2 by (auto simp: three_clients_def make_chan_def)
  from broadcast_delivery [OF ok1 enum2, of "''e2''"] r2 have
    reg2: "\<forall>c \<in> clients h1.
        if length (buf (send h1 c)) < capacity (send h1 c)
        then c \<in> clients h2 \<and> send h2 c = (send h1 c)\<lparr>buf := buf (send h1 c) @ [''e2'']\<rparr>
        else c \<notin> clients h2 \<and> send h2 c = (send h1 c)\<lparr>is_closed := True\<rparr>"
    by auto
  have s2: "buf (send h2 2) = [''e1'', ''e2'']" "buf (send h2 3) = [''e1'', ''e2'']"
    using reg2 in1 by (simp_all add: s1)
  show ?thesis
    using ok r1 c1 s1 r2 out s2 by auto
qed

text \<open>The other two cases of \<open>Run\<close> keep the registry free of closed channels.\<close>

lemma Run_register_ok:
  assumes "hub_ok h" and "\<not> is_closed (send h client)"
  shows "\<exists>h'. Run_register welcome h client = Inr h' \<and> hub_ok h'"
  using assms
  by (auto simp: Run_register_def Let_def try_send_def close_chan_def hub_ok_def)

lemma Run_unregister_ok:
  assumes "hub_ok h"
  shows "\<exists>h'. Run_unregister h client = Inr h' \<and> hub_ok h' \<and> client \<notin> clients h'"
  using assms
  by (auto simp: Run_unregister_def close_chan_def hub_ok_def)

section \<open>Snapshots and the ring's array\<close>

lemma NewSlidingWindow_h_ok:
  assumes "0 < n" and "NewSlidingWindow_h n hp = (sw, hp')"
  shows "window_h_ok hp' sw" and "abs_window hp' sw = NewSlidingWindow n"
  using assms
  by (auto simp: NewSlidingWindow_h_def make_slice_def window_h_ok_def abs_window_def
      NewSlidingWindow_def slice_contents_def nth_append)

lemma slice_contents_ring:
  "window_h_ok hp sw \<Longrightarrow> slice_contents hp (events_h sw) = hp ! arr (events_h sw)"
  by (simp add: window_h_ok_def slice_contents_def)

lemma Add_h_ok:
  assumes "window_h_ok hp sw"
  shows "\<exists>sw' hp'. Add_h sw e hp = Inr (sw', hp') \<and> window_h_ok hp' sw' \<and>
     events_h sw' = events_h sw \<and> maxSize_h sw' = maxSize_h sw \<and> length hp' = length hp \<and>
     (\<forall>a. a \<noteq> arr (events_h sw) \<longrightarrow> hp' ! a = hp ! a) \<and>
     Add (abs_window hp sw) e = Inr (abs_window hp' sw')"
  using assms
  by (auto simp: Add_h_def slice_set_def window_h_ok_def Let_def Add_def abs_window_def
      slice_contents_def)

lemma AddAll_h_ok:
  assumes "window_h_ok hp sw"
  shows "\<exists>sw' hp'. AddAll_h sw es hp = Inr (sw', hp') \<and> window_h_ok hp' sw' \<and>
     events_h sw' = events_h sw \<and> maxSize_h sw' = maxSize_h sw \<and> length hp' = length hp \<and>
     (\<forall>a. a \<noteq> arr (events_h sw) \<longrightarrow> hp' ! a = hp ! a) \<and>
     AddAll (abs_window hp sw) es = Inr (abs_window hp' sw')"
  using assms
proof (induction es arbitrary: sw hp)
  case Nil
  then show ?case by simp
next
  case (Cons e es)
  from Add_h_ok [OF Cons.prems, of e] obtain sw1 hp1 where
    a: "Add_h sw e hp = Inr (sw1, hp1)" "window_h_ok hp1 sw1" "events_h sw1 = events_h sw"
      "maxSize_h sw1 = maxSize_h sw" "length hp1 = length hp"
      "\<forall>a. a \<noteq> arr (events_h sw) \<longrightarrow> hp1 ! a = hp ! a"
      "Add (abs_window hp sw) e = Inr (abs_window hp1 sw1)"
    by blast
  from Cons.IH [OF a(2)] obtain sw' hp' where
    b: "AddAll_h sw1 es hp1 = Inr (sw', hp')" "window_h_ok hp' sw'" "events_h sw' = events_h sw1"
      "maxSize_h sw' = maxSize_h sw1" "length hp' = length hp1"
      "\<forall>a. a \<noteq> arr (events_h sw1) \<longrightarrow> hp' ! a = hp1 ! a"
      "AddAll (abs_window hp1 sw1) es = Inr (abs_window hp' sw')"
    by blast
  show ?case
    using a b by (intro exI [of _ sw'] exI [of _ hp']) simp
qed

lemma copy_loop_ok:
  assumes ok: "window_h_ok hp sw"
    and res: "arr result < length hp" "arr result \<noteq> arr (events_h sw)" "off result = 0"
      "len result = maxSize_h sw" "length (hp ! arr result) = maxSize_h sw"
    and ik: "i + k = maxSize_h sw"
  shows "\<exists>hp'. copy_loop sw result i k hp = Inr hp' \<and> length hp' = length hp \<and>
     (\<forall>a. a \<noteq> arr result \<longrightarrow> hp' ! a = hp ! a) \<and>
     length (hp' ! arr result) = maxSize_h sw \<and>
     (\<forall>j < maxSize_h sw.
        hp' ! arr result ! j =
          (if i \<le> j then hp ! arr (events_h sw) ! ((position_h sw + j) mod maxSize_h sw)
           else hp ! arr result ! j))"
  using assms
proof (induction k arbitrary: i hp)
  case 0
  then show ?case by simp
next
  case (Suc k)
  let ?n = "maxSize_h sw" and ?ring = "arr (events_h sw)" and ?r = "arr result"
  let ?idx = "(position_h sw + i) mod ?n"
  from Suc.prems have n: "0 < ?n" and i: "i < ?n"
    and ring: "off (events_h sw) = 0" "len (events_h sw) = ?n"
    by (simp_all add: window_h_ok_def)
  have get: "slice_get hp (events_h sw) ?idx = Inr (hp ! ?ring ! ?idx)"
    using n ring by (simp add: slice_get_def)
  let ?hp1 = "hp[?r := (hp ! ?r)[i := hp ! ?ring ! ?idx]]"
  have set: "slice_set hp result i (hp ! ?ring ! ?idx) = Inr ?hp1"
    using i Suc.prems by (simp add: slice_set_def)
  have ring1: "?hp1 ! ?ring = hp ! ?ring"
    using Suc.prems by simp
  have ok1: "window_h_ok ?hp1 sw"
    using Suc.prems(1) ring1 by (simp add: window_h_ok_def)
  have res1: "?r < length ?hp1" "length (?hp1 ! ?r) = ?n"
    using Suc.prems by simp_all
  from Suc.IH [OF ok1 res1(1) Suc.prems(3,4,5) res1(2), of "Suc i"] Suc.prems(7)
  obtain hp' where
    l: "copy_loop sw result (Suc i) k ?hp1 = Inr hp'" "length hp' = length ?hp1"
      "\<forall>a. a \<noteq> ?r \<longrightarrow> hp' ! a = ?hp1 ! a" "length (hp' ! ?r) = ?n"
      "\<forall>j < ?n. hp' ! ?r ! j =
          (if Suc i \<le> j then ?hp1 ! ?ring ! ((position_h sw + j) mod ?n) else ?hp1 ! ?r ! j)"
    by auto
  have step: "copy_loop sw result i (Suc k) hp = Inr hp'"
    using get set l(1) by (simp add: Let_def)
  have elems: "\<forall>j < ?n. hp' ! ?r ! j =
          (if i \<le> j then hp ! ?ring ! ((position_h sw + j) mod ?n) else hp ! ?r ! j)"
  proof (intro allI impI)
    fix j assume j: "j < ?n"
    show "hp' ! ?r ! j =
          (if i \<le> j then hp ! ?ring ! ((position_h sw + j) mod ?n) else hp ! ?r ! j)"
    proof (cases "j = i")
      case True
      then show ?thesis
        using l(5) j Suc.prems by simp
    next
      case False
      then show ?thesis
        using l(5) j Suc.prems ring1 by auto
    qed
  qed
  have others: "\<forall>a. a \<noteq> ?r \<longrightarrow> hp' ! a = hp ! a"
    using l(3) by simp
  show ?case
    using step l(2,4) others elems by simp
qed

lemma GetEvents_h_full:
  assumes ok: "window_h_ok hp sw" and full: "full_h sw"
  shows "\<exists>snap hp'. GetEvents_h sw hp = Inr (snap, hp') \<and>
     arr snap = length hp \<and> length hp' = Suc (length hp) \<and>
     (\<forall>a < length hp. hp' ! a = hp ! a) \<and>
     slice_contents hp' snap =
       map (\<lambda>j. hp ! arr (events_h sw) ! ((position_h sw + j) mod maxSize_h sw))
         [0 ..< maxSize_h sw]"
proof -
  let ?n = "maxSize_h sw"
  let ?snap = "\<lparr>arr = length hp, off = 0, len = ?n, cap = ?n\<rparr>"
  let ?hp1 = "hp @ [replicate ?n None]"
  have mk: "make_slice ?n hp = (?snap, ?hp1)"
    by (simp add: make_slice_def)
  from ok have a: "arr (events_h sw) < length hp"
    by (simp add: window_h_ok_def)
  have ok1: "window_h_ok ?hp1 sw"
    using ok by (simp add: window_h_ok_def nth_append)
  from copy_loop_ok [OF ok1, of ?snap 0 ?n] a obtain hp' where
    l: "copy_loop sw ?snap 0 ?n ?hp1 = Inr hp'" "length hp' = length ?hp1"
      "\<forall>b. b \<noteq> length hp \<longrightarrow> hp' ! b = ?hp1 ! b" "length (hp' ! length hp) = ?n"
      "\<forall>j < ?n. hp' ! length hp ! j = ?hp1 ! arr (events_h sw) ! ((position_h sw + j) mod ?n)"
    by auto
  have g: "GetEvents_h sw hp = Inr (?snap, hp')"
    using full mk l(1) by (simp add: GetEvents_h_def)
  have same: "\<forall>b < length hp. hp' ! b = hp ! b"
    using l(3) by (simp add: nth_append)
  have "slice_contents hp' ?snap = hp' ! length hp"
    using l(4) by (simp add: slice_contents_def)
  also have "\<dots> = map (\<lambda>j. hp ! arr (events_h sw) ! ((position_h sw + j) mod ?n)) [0 ..< ?n]"
    using l(4,5) a by (intro nth_equalityI) (simp_all add: nth_append)
  finally have c: "slice_contents hp' ?snap =
       map (\<lambda>j. hp ! arr (events_h sw) ! ((position_h sw + j) mod ?n)) [0 ..< ?n]" .
  show ?thesis
    using g l(2) same c by (intro exI [of _ ?snap] exI [of _ hp']) simp
qed

text \<open>On well-formed windows the heap model and the value model return the same events.\<close>

lemma GetEvents_h_agrees:
  assumes ok: "window_h_ok hp sw"
  shows "\<exists>snap hp'. GetEvents_h sw hp = Inr (snap, hp') \<and>
     GetEvents (abs_window hp sw) = Inr (slice_contents hp' snap) \<and>
     window_h_ok hp' sw \<and> abs_window hp' sw = abs_window hp sw"
proof (cases "full_h sw")
  case False
  from ok have p: "position_h sw \<le> cap (events_h sw)" "position_h sw \<le> length (hp ! arr (events_h sw))"
    and o: "off (events_h sw) = 0"
    by (simp_all add: window_h_ok_def)
  have "GetEvents_h sw hp = Inr ((events_h sw)\<lparr>len := position_h sw\<rparr>, hp)"
    using False p by (simp add: GetEvents_h_def slice_prefix_def)
  moreover have "GetEvents (abs_window hp sw)
      = Inr (slice_contents hp ((events_h sw)\<lparr>len := position_h sw\<rparr>))"
    using False p o ok
    by (simp add: GetEvents_def abs_window_def slice_contents_def window_h_ok_def)
  ultimately show ?thesis
    using ok by blast
next
  case True
  let ?n = "maxSize_h sw" and ?ring = "hp ! arr (events_h sw)"
  from GetEvents_h_full [OF ok True] obtain snap hp' where
    g: "GetEvents_h sw hp = Inr (snap, hp')" "arr snap = length hp" "length hp' = Suc (length hp)"
      "\<forall>a < length hp. hp' ! a = hp ! a"
      "slice_contents hp' snap = map (\<lambda>j. ?ring ! ((position_h sw + j) mod ?n)) [0 ..< ?n]"
    by blast
  from ok have len: "length ?ring = ?n" and n: "0 < ?n" and a: "arr (events_h sw) < length hp"
    by (simp_all add: window_h_ok_def)
  have ev: "events (abs_window hp sw) = ?ring"
    using ok by (simp add: abs_window_def slice_contents_ring)
  have "GetEvents (abs_window hp sw) =
      traverse (\<lambda>i. index ?ring ((position_h sw + i) mod ?n)) [0 ..< ?n]"
    using True by (simp add: GetEvents_def ev) (simp add: abs_window_def)
  also have "\<dots> = Inr (map (\<lambda>i. ?ring ! ((position_h sw + i) mod ?n)) [0 ..< ?n])"
    by (rule traverse_index_ok) (simp add: len n)
  finally have v: "GetEvents (abs_window hp sw) = Inr (slice_contents hp' snap)"
    by (simp add: g(5))
  have ring': "hp' ! arr (events_h sw) = ?ring"
    using g(4) a by simp
  have ok': "window_h_ok hp' sw"
    using ok g(3) ring' by (simp add: window_h_ok_def)
  have "abs_window hp' sw = abs_window hp sw"
    using ok ok' ring' by (simp add: abs_window_def slice_contents_ring)
  with g(1) v ok' show ?thesis by blast
qed

text \<open>A snapshot of a full window is a fresh array: later \<open>Add\<close> calls leave it alone.\<close>

lemma snapshot_of_full_window_kept:
  assumes ok: "window_h_ok hp sw" and full: "full_h sw"
  shows "\<exists>snap hp1. GetEvents_h sw hp = Inr (snap, hp1) \<and>
     (\<forall>es. \<exists>sw' hp2. AddAll_h sw es hp1 = Inr (sw', hp2) \<and>
        slice_contents hp2 snap = slice_contents hp1 snap)"
proof -
  from GetEvents_h_full [OF ok full] obtain snap hp1 where
    g: "GetEvents_h sw hp = Inr (snap, hp1)" "arr snap = length hp" "length hp1 = Suc (length hp)"
      "\<forall>a < length hp. hp1 ! a = hp ! a"
    by blast
  from ok have a: "arr (events_h sw) < length hp"
    by (simp add: window_h_ok_def)
  have ok1: "window_h_ok hp1 sw"
    using ok g(3,4) a by (simp add: window_h_ok_def)
  have "\<exists>sw' hp2. AddAll_h sw es hp1 = Inr (sw', hp2) \<and>
        slice_contents hp2 snap = slice_contents hp1 snap" for es
  proof -
    from AddAll_h_ok [OF ok1, of es] obtain sw' hp2 where
      r: "AddAll_h sw es hp1 = Inr (sw', hp2)"
        "\<forall>b. b \<noteq> arr (events_h sw) \<longrightarrow> hp2 ! b = hp1 ! b"
      by blast
    from a g(2) have "arr snap \<noteq> arr (events_h sw)" by simp
    with r(2) have "slice_contents hp2 snap = slice_contents hp1 snap"
      by (simp add: slice_contents_def)
    with r(1) show ?thesis by blast
  qed
  with g(1) show ?thesis by blast
qed

lemma AddAll_position:
  "window_ok sw \<Longrightarrow> AddAll sw es = Inr sw' \<Longrightarrow>
   position sw' = (position sw + length es) mod maxSize sw \<and>
   (full sw' \<longleftrightarrow> full sw \<or> maxSize sw \<le> position sw + length es)"
proof (induction es arbitrary: sw)
  case Nil
  then show ?case by (simp add: window_ok_def)
next
  case (Cons e es)
  let ?c = "maxSize sw" and ?p = "position sw"
  let ?sw1 = "sw\<lparr>events := (events sw)[?p := Some e], position := (?p + 1) mod ?c,
                    full := (full sw \<or> (?p + 1) mod ?c = 0)\<rparr>"
  have a: "Add sw e = Inr ?sw1" by (rule Add_defined [OF Cons.prems(1)])
  with Cons.prems(2) have r: "AddAll ?sw1 es = Inr sw'" by simp
  from Cons.prems(1) have p: "?p < ?c" by (simp add: window_ok_def)
  have wrap: "(?p + 1) mod ?c = 0 \<longleftrightarrow> ?p + 1 = ?c"
    using p by (cases "?p + 1 = ?c") simp_all
  have pos1: "?p + 1 \<noteq> ?c \<Longrightarrow> (?p + 1) mod ?c = ?p + 1"
    using p by simp
  from Cons.IH [OF Add_window_ok [OF Cons.prems(1) a] r]
  have ih: "position sw' = ((?p + 1) mod ?c + length es) mod ?c"
    "full sw' \<longleftrightarrow> (full sw \<or> (?p + 1) mod ?c = 0) \<or> ?c \<le> (?p + 1) mod ?c + length es"
    by simp_all
  have "position sw' = (?p + length (e # es)) mod ?c"
    using ih(1) by (simp add: mod_simps)
  moreover have "full sw' \<longleftrightarrow> full sw \<or> ?c \<le> ?p + length (e # es)"
    using ih(2) wrap pos1 by (cases "?p + 1 = ?c") auto
  ultimately show ?case by simp
qed

text \<open>
  C9 fails on the code. A snapshot taken before the window is full is a slice of the
  ring's own array. In a window of size \<open>n\<close> (at least 2; the detector uses 50), a
  snapshot taken after the first \<open>Add\<close> shows that event, and after \<open>n\<close> more \<open>Add\<close>
  calls the same snapshot shows the last event added.
\<close>

theorem snapshot_shares_ring:
  assumes n: "2 \<le> n" and len: "length es = n"
  shows "snapshot_then_add n [e0] es = Inr ([Some e0], [Some (last es)])"
proof -
  obtain w0 hp0 where new: "NewSlidingWindow_h n [] = (w0, hp0)"
    by (cases "NewSlidingWindow_h n []") auto
  from n have n0: "0 < n" by simp
  have tk: "take (Suc 0) ((replicate n None)[0 := Some e0]) = [Some e0]"
    using n by (cases n) simp_all
  note ok0 = NewSlidingWindow_h_ok [OF n0 new]
  from AddAll_h_ok [OF ok0(1), of "[e0]"] obtain w1 hp1 where
    a1: "AddAll_h w0 [e0] hp0 = Inr (w1, hp1)" "window_h_ok hp1 w1"
      "AddAll (abs_window hp0 w0) [e0] = Inr (abs_window hp1 w1)"
    by blast
  have v1: "abs_window hp1 w1 =
      \<lparr>events = (replicate n None)[0 := Some e0], maxSize = n, position = 1, full = False\<rparr>"
    using a1(3) n unfolding ok0(2)
    by (simp add: NewSlidingWindow_def Add_def Let_def)
  then have p1: "position_h w1 = 1" "full_h w1 = False" "maxSize_h w1 = n"
    and ring1: "slice_contents hp1 (events_h w1) = (replicate n None)[0 := Some e0]"
    by (simp_all add: abs_window_def)
  from a1(2) have sh: "off (events_h w1) = 0" "cap (events_h w1) = n"
    "length (hp1 ! arr (events_h w1)) = n"
    using p1(3) by (simp_all add: window_h_ok_def)
  let ?snap = "(events_h w1)\<lparr>len := 1\<rparr>"
  have g: "GetEvents_h w1 hp1 = Inr (?snap, hp1)"
    using p1 sh n by (simp add: GetEvents_h_def slice_prefix_def)
  have c1: "slice_contents hp1 ?snap = [Some e0]"
  proof -
    have "slice_contents hp1 ?snap = take 1 (slice_contents hp1 (events_h w1))"
      using sh a1(2) by (simp add: slice_contents_def window_h_ok_def)
    then show ?thesis
      unfolding ring1 by (simp add: tk)
  qed
  from AddAll_h_ok [OF a1(2), of es] obtain w2 hp2 where
    a2: "AddAll_h w1 es hp1 = Inr (w2, hp2)" "window_h_ok hp2 w2" "events_h w2 = events_h w1"
      "AddAll (abs_window hp1 w1) es = Inr (abs_window hp2 w2)"
    by blast
  have okv1: "window_ok (abs_window hp1 w1)"
    using n unfolding v1 by (simp add: window_ok_def tk)
  have h1: "held (abs_window hp1 w1) = [e0]"
    unfolding v1 by (simp add: held_def tk)
  from AddAll_ok [OF okv1, of es] a2(4) have
    okv2: "window_ok (abs_window hp2 w2)" and m2: "maxSize (abs_window hp2 w2) = n"
    and h2: "held (abs_window hp2 w2) = lastn n ([e0] @ es)"
    unfolding h1 by (simp_all add: v1)
  have md: "Suc n mod n = Suc 0"
    using n by (simp add: mod_Suc)
  from AddAll_position [OF okv1 a2(4)] have
    pos2: "position (abs_window hp2 w2) = 1" and full2: "full (abs_window hp2 w2)"
    using n len by (simp_all add: v1 md)
  have h2': "held (abs_window hp2 w2) = es"
    unfolding h2 using len by (simp add: lastn_def)
  let ?ev2 = "events (abs_window hp2 w2)"
  have len2: "length ?ev2 = n"
    using okv2 m2 by (simp add: window_ok_def)
  have la: "list_all (\<lambda>slot. slot \<noteq> None) (rotate 1 ?ev2)"
    using okv2 full2 by (simp add: window_ok_def list_all_iff)
  have rot: "rotate 1 ?ev2 = map Some es"
  proof -
    have "rotate 1 ?ev2 = map Some (map the (rotate 1 ?ev2))"
      by (rule map_Some_the [OF la, symmetric])
    also have "map the (rotate 1 ?ev2) = held (abs_window hp2 w2)"
      using full2 pos2 by (simp add: held_def)
    finally show ?thesis unfolding h2' .
  qed
  have "rotate 1 ?ev2 ! (n - 1) = ?ev2 ! ((1 + (n - 1)) mod length ?ev2)"
    by (rule nth_rotate) (use n len2 in simp)
  moreover have "(1 + (n - 1)) mod length ?ev2 = 0"
    using n len2 by simp
  moreover have "rotate 1 ?ev2 ! (n - 1) = Some (es ! (n - 1))"
    unfolding rot using n len by simp
  moreover have "es ! (n - 1) = last es"
  proof -
    from n len have "es \<noteq> []" by auto
    then have "last es = es ! (length es - 1)" by (rule last_conv_nth)
    then show ?thesis unfolding len by simp
  qed
  ultimately have first: "?ev2 ! 0 = Some (last es)"
    by simp
  have c2: "slice_contents hp2 ?snap = [Some (last es)]"
  proof -
    have "slice_contents hp2 ?snap = take 1 (slice_contents hp2 (events_h w2))"
      using sh a2(2,3) by (simp add: slice_contents_def window_h_ok_def)
    also have "\<dots> = take 1 ?ev2"
      by (simp add: abs_window_def)
    also have "\<dots> = [?ev2 ! 0]"
      using n len2 by (cases ?ev2) simp_all
    finally show ?thesis by (simp add: first)
  qed
  show ?thesis
    unfolding snapshot_then_add_def new using a1(1) g a2(1) c1 c2 by simp
qed

theorem snapshot_shares_ring_witness:
  "snapshot_then_add 2 [probe 1] [probe 2, probe 3] = Inr ([Some (probe 1)], [Some (probe 3)])"
  using snapshot_shares_ring [of 2 "[probe 2, probe 3]" "probe 1"] by simp

section \<open>Reachable detector states\<close>

lemma history_length:
  assumes "detector_ok ad"
  shows "length (history ad m) \<le> 50"
proof (cases "slidingWindow ad m")
  case None
  then show ?thesis by (simp add: history_def)
next
  case (Some w)
  with assms have "window_ok w" "maxSize w = 50"
    by (auto simp: detector_ok_def)
  then show ?thesis
    using Some by (simp add: history_def length_held window_ok_def)
qed

text \<open>
  Every state the driver loop reaches from a well-formed detector is well formed, keeps
  callback and thresholds, and holds for each machine the last 50 of its events.
\<close>

lemma AnalyzeAll_ok:
  assumes "detector_ok ad"
  shows "\<exists>ad' sent. AnalyzeAll ad es = Inr (ad', sent) \<and> detector_ok ad' \<and>
     thresholds ad' = thresholds ad \<and> alertCallback ad' = alertCallback ad \<and>
     (\<forall>m. history ad' m = lastn 50 (history ad m @ filter (\<lambda>e. MachineID e = m) es))"
  using assms
proof (induction es arbitrary: ad)
  case Nil
  then show ?case
    by (simp add: lastn_length_le history_length)
next
  case (Cons e es)
  from AnalyzeEvent_ok [OF Cons.prems, of e] obtain ad1 sent1 where
    a: "AnalyzeEvent ad e = Inr (ad1, sent1)" "detector_ok ad1"
      "thresholds ad1 = thresholds ad" "alertCallback ad1 = alertCallback ad"
      "\<forall>m. history ad1 m =
         (if m = MachineID e then lastn 50 (history ad (MachineID e) @ [e]) else history ad m)"
    by blast
  from Cons.IH [OF a(2)] obtain ad' sent' where
    b: "AnalyzeAll ad1 es = Inr (ad', sent')" "detector_ok ad'"
      "thresholds ad' = thresholds ad1" "alertCallback ad' = alertCallback ad1"
      "\<forall>m. history ad' m = lastn 50 (history ad1 m @ filter (\<lambda>e. MachineID e = m) es)"
    by blast
  have h: "history ad' m = lastn 50 (history ad m @ filter (\<lambda>x. MachineID x = m) (e # es))" for m
    using a(5) b(5) by (simp add: lastn_lastn_append)
  show ?case
    using a(1,3,4) b(1,2,3,4) h by simp
qed

lemma AnalyzeAll_from_new:
  assumes "\<forall>e \<in> set es. MachineID e = m" and "length es \<le> 50"
  shows "\<exists>ad' sent. AnalyzeAll (NewAnomalyDetector cb) es = Inr (ad', sent) \<and>
     detector_ok ad' \<and> alertCallback ad' = cb \<and> history ad' m = es"
proof -
  have f: "filter (\<lambda>e. MachineID e = m) es = es"
    using assms(1) by (simp add: filter_id_conv)
  have c: "alertCallback (NewAnomalyDetector cb) = cb"
    by (simp add: NewAnomalyDetector_def)
  from AnalyzeAll_ok [OF NewAnomalyDetector_ok(1), of cb es] obtain ad' sent where
    r: "AnalyzeAll (NewAnomalyDetector cb) es = Inr (ad', sent)" "detector_ok ad'"
    "alertCallback ad' = alertCallback (NewAnomalyDetector cb)"
    "\<forall>m. history ad' m = lastn 50 (history (NewAnomalyDetector cb) m @ filter (\<lambda>e. MachineID e = m) es)"
    by blast
  from r(4) have "history ad' m = es"
    using assms(2) by (simp add: NewAnomalyDetector_ok(2) f lastn_length_le)
  with r(1,2,3) c show ?thesis by auto
qed

lemma AnalyzeEvent_state:
  assumes ok: "detector_ok ad"
  shows "\<exists>w sent.
     Add (case slidingWindow ad (MachineID e) of Some w \<Rightarrow> w | None \<Rightarrow> NewSlidingWindow 50) e = Inr w \<and>
     AnalyzeEvent ad e = Inr (ad\<lparr>slidingWindow := (slidingWindow ad)(MachineID e \<mapsto> w)\<rparr>, sent)"
proof -
  define w0 where "w0 = (case slidingWindow ad (MachineID e) of Some w \<Rightarrow> w | None \<Rightarrow> NewSlidingWindow 50)"
  have w0: "window_ok w0"
    unfolding w0_def by (rule window0_ok [OF ok])
  obtain w where add: "Add w0 e = Inr w"
    using Add_defined [OF w0] by blast
  have w: "window_ok w"
    by (rule Add_window_ok [OF w0 add])
  define ad' where "ad' = ad\<lparr>slidingWindow := (slidingWindow ad)(MachineID e \<mapsto> w)\<rparr>"
  obtain s2 where t: "detectTrendAnomalies ad' e w = Inr s2"
    using detectTrendAnomalies_ok [OF w, of ad' e] by blast
  obtain s3 where p: "detectPatternAnomalies ad' e w = Inr s3"
    using detectPatternAnomalies_ok [OF w, of ad' e] by blast
  have "AnalyzeEvent ad e = Inr (ad', detectThresholdViolations ad' e @ s2 @ s3)"
    unfolding AnalyzeEvent_def Let_def w0_def [symmetric] add sum.case ad'_def [symmetric]
    by (simp only: t p sum.case)
  with add show ?thesis
    unfolding w0_def ad'_def by blast
qed

lemma Add_sample_window:
  assumes "length pre < 50"
  shows "Add \<lparr>events = map Some pre @ replicate (50 - length pre) None, maxSize = 50,
              position = length pre, full = False\<rparr> e =
         Inr \<lparr>events = map Some (pre @ [e]) @ replicate (50 - length (pre @ [e])) None,
              maxSize = 50, position = Suc (length pre) mod 50,
              full = (Suc (length pre) mod 50 = 0)\<rparr>"
proof -
  from assms obtain k where k: "50 - length pre = Suc k"
    by (cases "50 - length pre") auto
  then have k': "50 - length (pre @ [e]) = k"
    by simp
  have "(map Some pre @ replicate (Suc k) None)[length pre := Some e]
        = map Some (pre @ [e]) @ replicate k None"
    by (simp add: list_update_append)
  then show ?thesis
    using assms unfolding k k' by (simp add: Add_def Let_def)
qed

text \<open>
  The sample detector is the state the driver loop reaches from a new detector by
  analysing the same events of one machine.
\<close>

lemma detector_with_step:
  assumes "Suc (length pre) < 50" and "MachineID e = m"
  shows "\<exists>sent. AnalyzeEvent (detector_with m pre) e = Inr (detector_with m (pre @ [e]), sent)"
proof -
  have lt: "length pre < 50" using assms(1) by simp
  have sw: "slidingWindow (detector_with m pre) (MachineID e) =
      Some \<lparr>events = map Some pre @ replicate (50 - length pre) None, maxSize = 50,
            position = length pre, full = False\<rparr>"
    by (simp add: detector_with_def assms(2))
  from AnalyzeEvent_state [OF detector_with_ok(1) [OF lt], of m e] obtain w sent where
    a: "Add \<lparr>events = map Some pre @ replicate (50 - length pre) None, maxSize = 50,
              position = length pre, full = False\<rparr> e = Inr w"
    and an: "AnalyzeEvent (detector_with m pre) e =
      Inr ((detector_with m pre)\<lparr>slidingWindow :=
             (slidingWindow (detector_with m pre))(MachineID e \<mapsto> w)\<rparr>, sent)"
    unfolding sw by auto
  have w: "w = \<lparr>events = map Some (pre @ [e]) @ replicate (50 - length (pre @ [e])) None,
              maxSize = 50, position = length (pre @ [e]), full = False\<rparr>"
    using a assms(1) unfolding Add_sample_window [OF lt] by simp
  have "(detector_with m pre)\<lparr>slidingWindow :=
             (slidingWindow (detector_with m pre))(MachineID e \<mapsto> w)\<rparr>
        = detector_with m (pre @ [e])"
    unfolding w by (simp add: detector_with_def assms(2))
  with an show ?thesis by auto
qed

lemma detector_with_first:
  "\<exists>sent. AnalyzeEvent (NewAnomalyDetector True) e = Inr (detector_with (MachineID e) [e], sent)"
proof -
  from AnalyzeEvent_state [OF NewAnomalyDetector_ok(1), of True e] obtain w sent where
    a: "Add (NewSlidingWindow 50) e = Inr w"
    and an: "AnalyzeEvent (NewAnomalyDetector True) e =
      Inr ((NewAnomalyDetector True)\<lparr>slidingWindow :=
             (slidingWindow (NewAnomalyDetector True))(MachineID e \<mapsto> w)\<rparr>, sent)"
    by (auto simp: NewAnomalyDetector_def)
  have "NewSlidingWindow 50 = \<lparr>events = map Some [] @ replicate (50 - length ([] :: SensorEvent list)) None,
      maxSize = 50, position = length ([] :: SensorEvent list), full = False\<rparr>"
    by (simp add: NewSlidingWindow_def)
  with a have w: "w = \<lparr>events = map Some ([] @ [e]) @ replicate (50 - length ([] @ [e])) None,
              maxSize = 50, position = 1, full = False\<rparr>"
    using Add_sample_window [of "[]" e] by simp
  have "(NewAnomalyDetector True)\<lparr>slidingWindow :=
             (slidingWindow (NewAnomalyDetector True))(MachineID e \<mapsto> w)\<rparr>
        = detector_with (MachineID e) [e]"
    unfolding w by (simp add: detector_with_def NewAnomalyDetector_def)
  with an show ?thesis by auto
qed

lemma AnalyzeAll_detector_with:
  assumes "\<forall>e \<in> set es. MachineID e = m" and "length pre + length es < 50"
  shows "\<exists>sent. AnalyzeAll (detector_with m pre) es = Inr (detector_with m (pre @ es), sent)"
  using assms
proof (induction es arbitrary: pre)
  case Nil
  then show ?case by simp
next
  case (Cons e es)
  from Cons.prems have "Suc (length pre) < 50" "MachineID e = m" by simp_all
  from detector_with_step [OF this] obtain s1 where
    a: "AnalyzeEvent (detector_with m pre) e = Inr (detector_with m (pre @ [e]), s1)"
    by blast
  from Cons.prems have "\<forall>e \<in> set es. MachineID e = m" "length (pre @ [e]) + length es < 50"
    by simp_all
  from Cons.IH [OF this] obtain s2 where
    "AnalyzeAll (detector_with m (pre @ [e])) es = Inr (detector_with m ((pre @ [e]) @ es), s2)"
    by blast
  with a show ?case by simp
qed

lemma detector_with_reached:
  assumes "\<forall>x \<in> set (e # es). MachineID x = m" and "length (e # es) < 50"
  shows "\<exists>sent. AnalyzeAll (NewAnomalyDetector True) (e # es) = Inr (detector_with m (e # es), sent)"
proof -
  from assms(1) have m: "MachineID e = m" by simp
  from detector_with_first [of e] obtain s1 where
    a: "AnalyzeEvent (NewAnomalyDetector True) e = Inr (detector_with m [e], s1)"
    unfolding m by blast
  from assms have "\<forall>x \<in> set es. MachineID x = m" "length [e] + length es < 50"
    by simp_all
  from AnalyzeAll_detector_with [OF this] obtain s2 where
    "AnalyzeAll (detector_with m [e]) es = Inr (detector_with m ([e] @ es), s2)"
    by blast
  with a show ?thesis by simp
qed

end
